theory Spec2Isabelle
  imports Main "HOL-Library.Multiset"
begin

section \<open>Data model\<close>

datatype Action = Up | Down | Left | Right

type_synonym State = "int \<times> int"

definition State_equals :: "State \<Rightarrow> State \<Rightarrow> bool" where
  "State_equals a b = (fst a = fst b \<and> snd a = snd b)"

datatype Node = Node (state: State) (parent: "Node option") (action: "Action option")
  (manhattanDistance: int) (pathCost: int)

datatype MazeCellType = Space | Wall | Start | Goal

datatype MazeCellState = Unexplored | Explored | Frontier | SolutionPath | Unreachable

text \<open>The optional \<open>label\<close> of a cell is \<open>None\<close> while the property is absent.
  The field \<open>state\<close> of a cell is called \<open>cellState\<close>, since \<open>state\<close> is the
  field of a node.\<close>

record MazeCell =
  type :: MazeCellType
  cellState :: MazeCellState
  label :: "string option"

type_synonym MazeData = "MazeCell list list"

datatype SolutionType = Pending | NoSolution | Continue | FoundSolution

text \<open>Every \<open>throw\<close> of the source is a value; \<open>TypeError\<close> is what the runtime
  raises when a property of \<open>undefined\<close> is read or written.\<close>

datatype error = EmptyFrontier | TypeError | OnlyOneStart | OnlyOneGoal | NoStart | NoGoal
  | InvalidTemplate

section \<open>Priority queue\<close>

text \<open>The heap is the array \<open>_heap\<close>; the comparator is a parameter of every operation.
  Indices are natural numbers: \<open>parent\<close> is applied to positive indices only (the loop of
  \<open>_siftUp\<close> tests \<open>node > top\<close> first), where \<open>((i + 1) >>> 1) - 1\<close> is not
  negative.\<close>

definition pq_parent :: "nat \<Rightarrow> nat" where
  "pq_parent i = (i + 1) div 2 - 1"

definition pq_left :: "nat \<Rightarrow> nat" where
  "pq_left i = 2 * i + 1"

definition pq_right :: "nat \<Rightarrow> nat" where
  "pq_right i = 2 * (i + 1)"

definition pq_swap :: "'a list \<Rightarrow> nat \<Rightarrow> nat \<Rightarrow> 'a list" where
  "pq_swap h i j = h[i := h ! j, j := h ! i]"

definition pq_greater :: "('a \<Rightarrow> 'a \<Rightarrow> bool) \<Rightarrow> 'a list \<Rightarrow> nat \<Rightarrow> nat \<Rightarrow> bool" where
  "pq_greater cmp h i j = cmp (h ! i) (h ! j)"

definition pq_isEmpty :: "'a list \<Rightarrow> bool" where
  "pq_isEmpty h = (length h = 0)"

definition pq_peek :: "'a list \<Rightarrow> 'a option" where
  "pq_peek h = (if 0 < length h then Some (h ! 0) else None)"

definition pq_find :: "('a \<Rightarrow> bool) \<Rightarrow> 'a list \<Rightarrow> 'a option" where
  "pq_find finder h = find finder h"

function siftUp_loop :: "('a \<Rightarrow> 'a \<Rightarrow> bool) \<Rightarrow> 'a list \<Rightarrow> nat \<Rightarrow> 'a list" where
  "siftUp_loop cmp h node =
     (if node > 0 \<and> pq_greater cmp h node (pq_parent node)
      then siftUp_loop cmp (pq_swap h node (pq_parent node)) (pq_parent node)
      else h)"
  by pat_completeness auto
termination
  by (relation "measure (\<lambda>(cmp, h, node). node)") (auto simp: pq_parent_def)

definition siftUp :: "('a \<Rightarrow> 'a \<Rightarrow> bool) \<Rightarrow> 'a list \<Rightarrow> 'a list" where
  "siftUp cmp h = siftUp_loop cmp h (length h - 1)"

function siftDown_loop :: "('a \<Rightarrow> 'a \<Rightarrow> bool) \<Rightarrow> 'a list \<Rightarrow> nat \<Rightarrow> 'a list" where
  "siftDown_loop cmp h node =
     (if (pq_left node < length h \<and> pq_greater cmp h (pq_left node) node) \<or>
         (pq_right node < length h \<and> pq_greater cmp h (pq_right node) node)
      then (let maxChild =
                  (if pq_right node < length h \<and> pq_greater cmp h (pq_right node) (pq_left node)
                   then pq_right node else pq_left node)
            in siftDown_loop cmp (pq_swap h node maxChild) maxChild)
      else h)"
  by pat_completeness auto
termination
  by (relation "measure (\<lambda>(cmp, h, node). length h - node)")
     (auto simp: pq_left_def pq_right_def pq_swap_def)

declare siftUp_loop.simps [simp del] siftDown_loop.simps [simp del]

definition siftDown :: "('a \<Rightarrow> 'a \<Rightarrow> bool) \<Rightarrow> 'a list \<Rightarrow> 'a list" where
  "siftDown cmp h = siftDown_loop cmp h 0"

text \<open>\<open>push\<close> takes any number of values and handles them in turn, each by an append and
  \<open>_siftUp\<close>; the size it returns is the length of the array.\<close>

definition pq_push1 :: "('a \<Rightarrow> 'a \<Rightarrow> bool) \<Rightarrow> 'a \<Rightarrow> 'a list \<Rightarrow> 'a list" where
  "pq_push1 cmp v h = siftUp cmp (h @ [v])"

definition pq_push :: "('a \<Rightarrow> 'a \<Rightarrow> bool) \<Rightarrow> 'a list \<Rightarrow> 'a list \<Rightarrow> 'a list" where
  "pq_push cmp h vs = fold (pq_push1 cmp) vs h"

text \<open>\<open>pop\<close> does not test for emptiness: on the empty heap \<open>peek\<close> yields
  \<open>undefined\<close> (here \<open>None\<close>) and the array stays empty.\<close>

definition pq_pop :: "('a \<Rightarrow> 'a \<Rightarrow> bool) \<Rightarrow> 'a list \<Rightarrow> 'a option \<times> 'a list" where
  "pq_pop cmp h =
     (let poppedValue = pq_peek h;
          bottom = length h - 1;
          h1 = (if bottom > 0 then pq_swap h 0 bottom else h);
          h2 = butlast h1
      in (poppedValue, siftDown cmp h2))"

section \<open>Frontiers\<close>

datatype IFrontier =
    StackFrontier "Node list"
  | QueueFrontier "Node list"
  | GreedBestFrontier "Node list"
  | AStarFrontier "Node list"

datatype FrontierClass = StackFrontierClass | QueueFrontierClass | GreedBestFrontierClass
  | AStarFrontierClass

fun new_frontier :: "FrontierClass \<Rightarrow> IFrontier" where
  "new_frontier StackFrontierClass = StackFrontier []"
| "new_frontier QueueFrontierClass = QueueFrontier []"
| "new_frontier GreedBestFrontierClass = GreedBestFrontier []"
| "new_frontier AStarFrontierClass = AStarFrontier []"

text \<open>The comparators of the two heap frontiers.\<close>

definition greedy_comparator :: "Node \<Rightarrow> Node \<Rightarrow> bool" where
  "greedy_comparator a b = (manhattanDistance a < manhattanDistance b)"

definition astar_f :: "Node \<Rightarrow> int" where
  "astar_f n = pathCost n + manhattanDistance n"

definition astar_comparator :: "Node \<Rightarrow> Node \<Rightarrow> bool" where
  "astar_comparator a b = (astar_f a < astar_f b)"

fun nodes_of :: "IFrontier \<Rightarrow> Node list" where
  "nodes_of (StackFrontier fr) = fr"
| "nodes_of (QueueFrontier fr) = fr"
| "nodes_of (GreedBestFrontier fr) = fr"
| "nodes_of (AStarFrontier fr) = fr"

fun add :: "IFrontier \<Rightarrow> Node \<Rightarrow> IFrontier" where
  "add (StackFrontier fr) node = StackFrontier (fr @ [node])"
| "add (QueueFrontier fr) node = QueueFrontier (fr @ [node])"
| "add (GreedBestFrontier fr) node = GreedBestFrontier (pq_push greedy_comparator fr [node])"
| "add (AStarFrontier fr) node = AStarFrontier (pq_push astar_comparator fr [node])"

fun containers_state :: "IFrontier \<Rightarrow> State \<Rightarrow> bool" where
  "containers_state (StackFrontier fr) s = (find (\<lambda>x. State_equals (state x) s) fr \<noteq> None)"
| "containers_state (QueueFrontier fr) s = (find (\<lambda>x. State_equals (state x) s) fr \<noteq> None)"
| "containers_state (GreedBestFrontier fr) s =
     (pq_find (\<lambda>x. State_equals (state x) s) fr \<noteq> None)"
| "containers_state (AStarFrontier fr) s =
     (pq_find (\<lambda>x. State_equals (state x) s) fr \<noteq> None)"

fun empty :: "IFrontier \<Rightarrow> bool" where
  "empty (StackFrontier fr) = (length fr = 0)"
| "empty (QueueFrontier fr) = (length fr = 0)"
| "empty (GreedBestFrontier fr) = pq_isEmpty fr"
| "empty (AStarFrontier fr) = pq_isEmpty fr"

text \<open>\<open>remove\<close> yields the removed node and the frontier that is left. The two
  list frontiers throw on the empty list; the two heap frontiers hand on what \<open>pop\<close>
  yields, \<open>None\<close> standing for \<open>undefined\<close>.\<close>

fun remove :: "IFrontier \<Rightarrow> error + (Node option \<times> IFrontier)" where
  "remove (StackFrontier fr) =
     (if empty (StackFrontier fr) then Inl EmptyFrontier
      else Inr (Some (last fr), StackFrontier (butlast fr)))"
| "remove (QueueFrontier fr) =
     (if empty (QueueFrontier fr) then Inl EmptyFrontier
      else Inr (Some (hd fr), QueueFrontier (tl fr)))"
| "remove (GreedBestFrontier fr) =
     (case pq_pop greedy_comparator fr of (v, fr') \<Rightarrow> Inr (v, GreedBestFrontier fr'))"
| "remove (AStarFrontier fr) =
     (case pq_pop astar_comparator fr of (v, fr') \<Rightarrow> Inr (v, AStarFrontier fr'))"

text \<open>\<open>toString\<close> of a whole number, in decimal.\<close>

fun digits :: "nat \<Rightarrow> string" where
  "digits n = (if n < 10 then [char_of (48 + n)] else digits (n div 10) @ [char_of (48 + n mod 10)])"

definition toString :: "int \<Rightarrow> string" where
  "toString i = (if i < 0 then CHR ''-'' # digits (nat (- i)) else digits (nat i))"

fun getLabel :: "IFrontier \<Rightarrow> Node \<Rightarrow> string" where
  "getLabel (StackFrontier fr) n = ''''"
| "getLabel (QueueFrontier fr) n = ''''"
| "getLabel (GreedBestFrontier fr) n = toString (manhattanDistance n)"
| "getLabel (AStarFrontier fr) n = toString (pathCost n) @ ''+'' @ toString (manhattanDistance n)"

section \<open>Grid\<close>

text \<open>\<open>maze[row][col]\<close> is \<open>undefined\<close> outside the arrays, and reading or
  writing a property of it raises.\<close>

definition cell_at :: "MazeData \<Rightarrow> State \<Rightarrow> MazeCell option" where
  "cell_at maze s = (case s of (row, col) \<Rightarrow>
     if 0 \<le> row \<and> row < int (length maze) \<and> 0 \<le> col \<and> col < int (length (maze ! nat row))
     then Some (maze ! nat row ! nat col) else None)"

definition update_cell :: "MazeData \<Rightarrow> State \<Rightarrow> (MazeCell \<Rightarrow> MazeCell) \<Rightarrow> error + MazeData" where
  "update_cell maze s f = (case s of (row, col) \<Rightarrow>
     (case cell_at maze s of
        None \<Rightarrow> Inl TypeError
      | Some cell \<Rightarrow> Inr (maze[nat row := (maze ! nat row)[nat col := f cell]])))"

definition setCellState :: "MazeData \<Rightarrow> State \<Rightarrow> MazeCellState \<Rightarrow> error + MazeData" where
  "setCellState maze s cs = update_cell maze s (\<lambda>cell. cell\<lparr>cellState := cs\<rparr>)"

definition setCellLabel :: "MazeData \<Rightarrow> State \<Rightarrow> string \<Rightarrow> error + MazeData" where
  "setCellLabel maze s l = update_cell maze s (\<lambda>cell. cell\<lparr>label := Some l\<rparr>)"

definition getCellState :: "MazeData \<Rightarrow> State \<Rightarrow> error + MazeCellState" where
  "getCellState maze s = (case cell_at maze s of None \<Rightarrow> Inl TypeError
     | Some cell \<Rightarrow> Inr (cellState cell))"

definition calcManhattanDistance :: "State \<Rightarrow> State \<Rightarrow> int" where
  "calcManhattanDistance a b = (case a of (arow, acol) \<Rightarrow> case b of (brow, bcol) \<Rightarrow>
     \<bar>arow - brow\<bar> + \<bar>acol - bcol\<bar>)"

text \<open>A maze object: the grid it works on, the two counters it shares with the page, and
  its private fields \<open>_start\<close>, \<open>_goal\<close>, \<open>_width\<close> and \<open>_height\<close>.\<close>

record Maze =
  maze :: MazeData
  numExplored :: int
  solutionType :: SolutionType
  start :: State
  goal :: State
  width :: int
  height :: int

text \<open>The two nested loops of the constructor, over the index pairs in row-major order;
  the accumulator holds the variables \<open>start\<close> and \<open>goal\<close>.\<close>

fun scan_cells :: "MazeData \<Rightarrow> (nat \<times> nat) list \<Rightarrow> State option \<times> State option
    \<Rightarrow> error + (State option \<times> State option)" where
  "scan_cells m [] acc = Inr acc"
| "scan_cells m ((i, j) # ijs) (st, gl) =
     (case cell_at m (int i, int j) of
        None \<Rightarrow> Inl TypeError
      | Some cell \<Rightarrow>
          if type cell = Start then
            (if st \<noteq> None then Inl OnlyOneStart
             else scan_cells m ijs (Some (int i, int j), gl))
          else if type cell = Goal then
            (if gl \<noteq> None then Inl OnlyOneGoal
             else scan_cells m ijs (st, Some (int i, int j)))
          else scan_cells m ijs (st, gl))"

text \<open>The constructor. On the empty array \<open>this.maze[0].length\<close> raises; the width is
  the length of the first row.\<close>

definition Maze_constructor :: "MazeData \<Rightarrow> error + Maze" where
  "Maze_constructor mazeData =
     (if length mazeData = 0 then Inl TypeError
      else
        (let h = length mazeData; w = length (mazeData ! 0) in
         case scan_cells mazeData (List.product [0..<h] [0..<w]) (None, None) of
           Inl e \<Rightarrow> Inl e
         | Inr (st, gl) \<Rightarrow>
             (case st of
                None \<Rightarrow> Inl NoStart
              | Some s \<Rightarrow>
                  (case gl of
                     None \<Rightarrow> Inl NoGoal
                   | Some g \<Rightarrow>
                       Inr \<lparr>maze = mazeData, numExplored = 0, solutionType = Pending,
                            start = s, goal = g, width = int w, height = int h\<rparr>))))"

text \<open>\<open>neighbors\<close>: the four candidates, filtered by a test that reads the cell only
  for a row and a column inside the stored height and width.\<close>

definition candidates :: "State \<Rightarrow> (Action \<times> State) list" where
  "candidates s = (case s of (row, col) \<Rightarrow>
     [(Up, (row - 1, col)), (Down, (row + 1, col)), (Left, (row, col - 1)),
      (Right, (row, col + 1))])"

definition candidate_ok :: "Maze \<Rightarrow> Action \<times> State \<Rightarrow> error + bool" where
  "candidate_ok this candidate = (case candidate of (a, (row, col)) \<Rightarrow>
     if row < 0 \<or> row \<ge> height this then Inr False
     else if col < 0 \<or> col \<ge> width this then Inr False
     else (case cell_at (maze this) (row, col) of
             None \<Rightarrow> Inl TypeError
           | Some cell \<Rightarrow> Inr (type cell \<noteq> Wall)))"

fun filter_err :: "('a \<Rightarrow> error + bool) \<Rightarrow> 'a list \<Rightarrow> error + 'a list" where
  "filter_err p [] = Inr []"
| "filter_err p (x # xs) =
     (case p x of
        Inl e \<Rightarrow> Inl e
      | Inr b \<Rightarrow>
          (case filter_err p xs of
             Inl e \<Rightarrow> Inl e
           | Inr ys \<Rightarrow> Inr (if b then x # ys else ys)))"

definition neighbors :: "Maze \<Rightarrow> State \<Rightarrow> error + (Action \<times> State) list" where
  "neighbors this s = filter_err (candidate_ok this) (candidates s)"

section \<open>The search stepper\<close>

text \<open>\<open>solve\<close> returns the closure \<open>next\<close>; the closure is the pair of the maze object
  and the frontier it captured, and \<open>solve_next\<close> is one call of it.\<close>

definition solve :: "Maze \<Rightarrow> FrontierClass \<Rightarrow> error + (Maze \<times> IFrontier)" where
  "solve this frontierClass =
     (let startNode = Node (start this) None None
                        (calcManhattanDistance (start this) (goal this)) 0;
          frontier = add (new_frontier frontierClass) startNode
      in case setCellState (maze this) (start this) Frontier of
           Inl e \<Rightarrow> Inl e
         | Inr m \<Rightarrow> Inr (this\<lparr>maze := m, numExplored := 0, solutionType := Continue\<rparr>, frontier))"

text \<open>The walk along the \<open>parent\<close> links that marks the solution path.\<close>

fun mark_path :: "MazeData \<Rightarrow> Node \<Rightarrow> error + MazeData" where
  "mark_path m (Node s p a h g) =
     (case setCellState m s SolutionPath of
        Inl e \<Rightarrow> Inl e
      | Inr m' \<Rightarrow> (case p of None \<Rightarrow> Inr m' | Some n \<Rightarrow> mark_path m' n))"

text \<open>The body of the loop over the neighbours of the removed node, for one neighbour.
  The cell state is read only when the frontier does not hold the state (\<open>&&\<close>
  short-circuits).\<close>

definition visit :: "Node \<Rightarrow> State \<Rightarrow> Action \<times> State \<Rightarrow> MazeData \<times> IFrontier
    \<Rightarrow> error + (MazeData \<times> IFrontier)" where
  "visit node g candidate acc = (case candidate of (a, s) \<Rightarrow> case acc of (m, frontier) \<Rightarrow>
     if containers_state frontier s then Inr (m, frontier)
      else
        (case getCellState m s of
           Inl e \<Rightarrow> Inl e
         | Inr cs \<Rightarrow>
             if cs \<noteq> Explored then
               (let child = Node s (Some node) (Some a) (calcManhattanDistance s g)
                              (pathCost node + 1);
                    frontier' = add frontier child
                in case setCellLabel m (state child) (getLabel frontier' child) of
                     Inl e \<Rightarrow> Inl e
                   | Inr m1 \<Rightarrow>
                       (case setCellState m1 s Frontier of
                          Inl e \<Rightarrow> Inl e
                        | Inr m2 \<Rightarrow> Inr (m2, frontier')))
             else Inr (m, frontier)))"

text \<open>The loop itself: the body for each neighbour in turn, stopped by the first error.\<close>

fun expand :: "Node \<Rightarrow> State \<Rightarrow> (Action \<times> State) list \<Rightarrow> MazeData \<times> IFrontier
    \<Rightarrow> error + (MazeData \<times> IFrontier)" where
  "expand node g [] acc = Inr acc"
| "expand node g (candidate # rest) acc =
     (case visit node g candidate acc of
        Inl e \<Rightarrow> Inl e
      | Inr acc' \<Rightarrow> expand node g rest acc')"

definition solve_next :: "Maze \<times> IFrontier \<Rightarrow> error + (Maze \<times> IFrontier)" where
  "solve_next c = (case c of (this, frontier) \<Rightarrow>
     if empty frontier then Inr (this\<lparr>solutionType := NoSolution\<rparr>, frontier)
     else
       (case remove frontier of
          Inl e \<Rightarrow> Inl e
        | Inr (None, frontier1) \<Rightarrow> Inl TypeError
        | Inr (Some node, frontier1) \<Rightarrow>
            (let this1 = this\<lparr>numExplored := numExplored this + 1\<rparr> in
             if State_equals (state node) (goal this1) then
               (case mark_path (maze this1) node of
                  Inl e \<Rightarrow> Inl e
                | Inr m \<Rightarrow> Inr (this1\<lparr>maze := m, solutionType := FoundSolution\<rparr>, frontier1))
             else
               (case setCellState (maze this1) (state node) Explored of
                  Inl e \<Rightarrow> Inl e
                | Inr m1 \<Rightarrow>
                    (case neighbors (this1\<lparr>maze := m1\<rparr>) (state node) of
                       Inl e \<Rightarrow> Inl e
                     | Inr ns \<Rightarrow>
                         (case expand node (goal this1) ns (m1, frontier1) of
                            Inl e \<Rightarrow> Inl e
                          | Inr (m2, frontier2) \<Rightarrow> Inr (this1\<lparr>maze := m2\<rparr>, frontier2)))))))"

datatype DemoState = Ready | Running | Paused | Done

text \<open>One firing of the timer callback \<open>demoRunner\<close> of \<open>doStart\<close>: the closure is
  called only while the outcome is \<open>Continue\<close>.\<close>

definition demoRunner :: "(Maze \<times> IFrontier) \<times> DemoState
    \<Rightarrow> error + ((Maze \<times> IFrontier) \<times> DemoState)" where
  "demoRunner d = (case d of (c, demoState) \<Rightarrow>
     (case (if solutionType (fst c) = Continue then solve_next c else Inr c) of
        Inl e \<Rightarrow> Inl e
      | Inr c' \<Rightarrow>
          Inr (c', if solutionType (fst c') \<noteq> Continue then Done else demoState)))"

text \<open>\<open>n\<close> firings of the callback, seen on the closure alone: stepping until a
  terminal outcome is reached.\<close>

fun run_steps :: "nat \<Rightarrow> Maze \<times> IFrontier \<Rightarrow> error + (Maze \<times> IFrontier)" where
  "run_steps 0 c = Inr c"
| "run_steps (Suc n) c =
     (if solutionType (fst c) = Continue
      then (case solve_next c of Inl e \<Rightarrow> Inl e | Inr c' \<Rightarrow> run_steps n c')
      else Inr c)"

text \<open>\<open>n\<close> direct calls of the closure, with no test of the outcome in between.\<close>

fun call_next :: "nat \<Rightarrow> Maze \<times> IFrontier \<Rightarrow> error + (Maze \<times> IFrontier)" where
  "call_next 0 c = Inr c"
| "call_next (Suc n) c =
     (case solve_next c of Inl e \<Rightarrow> Inl e | Inr c' \<Rightarrow> call_next n c')"

section \<open>Templates and reset\<close>

text \<open>\<open>template.split(/\r?\n/)\<close>: a line feed, or a carriage return followed by a line
  feed, ends a line; the first argument is the line read so far.\<close>

fun split_lines_acc :: "string \<Rightarrow> string \<Rightarrow> string list" where
  "split_lines_acc cur [] = [cur]"
| "split_lines_acc cur [c] = (if c = CHR 0x0A then [cur, []] else [cur @ [c]])"
| "split_lines_acc cur (c # d # cs) =
     (if c = CHR 0x0D \<and> d = CHR 0x0A then cur # split_lines_acc [] cs
      else if c = CHR 0x0A then cur # split_lines_acc [] (d # cs)
      else split_lines_acc (cur @ [c]) (d # cs))"

definition split_lines :: "string \<Rightarrow> string list" where
  "split_lines template = split_lines_acc [] template"

definition build_cell :: "char \<Rightarrow> error + MazeCell" where
  "build_cell ch =
     (if ch = CHR ''#'' then Inr \<lparr>type = Wall, cellState = Unreachable, label = None\<rparr>
      else if ch = CHR ''A'' then Inr \<lparr>type = Start, cellState = Unexplored, label = None\<rparr>
      else if ch = CHR ''B'' then Inr \<lparr>type = Goal, cellState = Unexplored, label = None\<rparr>
      else if ch = CHR '' '' then Inr \<lparr>type = Space, cellState = Unexplored, label = None\<rparr>
      else Inl InvalidTemplate)"

fun build_row :: "string \<Rightarrow> error + MazeCell list" where
  "build_row [] = Inr []"
| "build_row (ch # chs) =
     (case build_cell ch of
        Inl e \<Rightarrow> Inl e
      | Inr cell \<Rightarrow> (case build_row chs of Inl e \<Rightarrow> Inl e | Inr row \<Rightarrow> Inr (cell # row)))"

fun build_rows :: "string list \<Rightarrow> error + MazeData" where
  "build_rows [] = Inr []"
| "build_rows (l # ls) =
     (case build_row l of
        Inl e \<Rightarrow> Inl e
      | Inr row \<Rightarrow> (case build_rows ls of Inl e \<Rightarrow> Inl e | Inr rows \<Rightarrow> Inr (row # rows)))"

definition buildMaze :: "string \<Rightarrow> error + MazeData" where
  "buildMaze template = build_rows (split_lines template)"

fun join :: "string \<Rightarrow> string list \<Rightarrow> string" where
  "join sep [] = []"
| "join sep [x] = x"
| "join sep (x # y # ys) = x @ sep @ join sep (y # ys)"

definition cell_char :: "MazeCell \<Rightarrow> string" where
  "cell_char cell =
     (if type cell = Wall then ''#''
      else if type cell = Start then ''A''
      else if type cell = Goal then ''B''
      else if type cell = Space then '' ''
      else [])"

definition mazeToTemplate :: "MazeData \<Rightarrow> string" where
  "mazeToTemplate m = join [CHR 0x0A] (map (\<lambda>row. join [] (map cell_char row)) m)"

text \<open>The page state that \<open>reset\<close> writes; \<open>demoRunner\<close> is the closure in use, if any.
  The array \<open>mazeData\<close> is the one a maze object works on. The timer that \<open>reset\<close> stops
  is not part of the state.\<close>

record Page =
  mazeData :: MazeData
  page_numExplored :: int
  page_solutionType :: SolutionType
  demoState :: DemoState
  page_demoRunner :: "(Maze \<times> IFrontier) option"

definition reset_cell :: "MazeCell \<Rightarrow> MazeCell" where
  "reset_cell cell =
     cell\<lparr>cellState := (if type cell = Wall then Unreachable else Unexplored), label := Some []\<rparr>"

definition reset :: "Page \<Rightarrow> Page" where
  "reset page = page\<lparr>mazeData := map (map reset_cell) (mazeData page), page_numExplored := 0,
     page_solutionType := Pending, demoState := Ready, page_demoRunner := None\<rparr>"

section \<open>Notions of the specification\<close>

text \<open>A grid is a non-empty array of rows of one length.\<close>

definition rectangular :: "MazeData \<Rightarrow> bool" where
  "rectangular m = (m \<noteq> [] \<and> list_all (\<lambda>row. length row = length (m ! 0)) m)"

text \<open>The dimensions stored in a maze object agree with its array.\<close>

definition dims_ok :: "Maze \<Rightarrow> bool" where
  "dims_ok this = (height this = int (length (maze this)) \<and>
     list_all (\<lambda>row. int (length row) = width this) (maze this))"

text \<open>The number of cells of a given type.\<close>

definition count_type :: "MazeCellType \<Rightarrow> MazeData \<Rightarrow> nat" where
  "count_type t m = length (filter (\<lambda>cell. type cell = t) (concat m))"

text \<open>What a template keeps of a cell: its type; state and label are set anew.\<close>

definition fresh_cell :: "MazeCell \<Rightarrow> MazeCell" where
  "fresh_cell cell = \<lparr>type = type cell,
     cellState = (if type cell = Wall then Unreachable else Unexplored), label = None\<rparr>"

text \<open>Paths of the grid graph: cells that exist and are no walls, joined by moves of one
  step up, down, left or right.\<close>

definition passable :: "MazeData \<Rightarrow> State \<Rightarrow> bool" where
  "passable m s = (case cell_at m s of None \<Rightarrow> False | Some cell \<Rightarrow> type cell \<noteq> Wall)"

definition adjacent :: "State \<Rightarrow> State \<Rightarrow> bool" where
  "adjacent s t = (\<bar>fst s - fst t\<bar> + \<bar>snd s - snd t\<bar> = 1)"

fun is_path :: "MazeData \<Rightarrow> State list \<Rightarrow> bool" where
  "is_path m [] = False"
| "is_path m [s] = passable m s"
| "is_path m (s # t # p) = (passable m s \<and> adjacent s t \<and> is_path m (t # p))"

text \<open>The states on the parent chain of a node, the root first.\<close>

fun path_of :: "Node \<Rightarrow> State list" where
  "path_of (Node s p a h g) = (case p of None \<Rightarrow> [] | Some n \<Rightarrow> path_of n) @ [s]"

text \<open>The states whose cells carry a given annotation.\<close>

definition marked :: "MazeCellState \<Rightarrow> MazeData \<Rightarrow> State set" where
  "marked cs m = {s. \<exists>cell. cell_at m s = Some cell \<and> cellState cell = cs}"

text \<open>A search from a template: parse, construct, \<open>solve\<close>.\<close>

definition start_search :: "string \<Rightarrow> FrontierClass \<Rightarrow> error + (Maze \<times> IFrontier)" where
  "start_search template frontierClass =
     (case buildMaze template of
        Inl e \<Rightarrow> Inl e
      | Inr m \<Rightarrow>
          (case Maze_constructor m of Inl e \<Rightarrow> Inl e | Inr this \<Rightarrow> solve this frontierClass))"

text \<open>A search on a grid: construct, \<open>solve\<close>, and step until a terminal outcome, at
  most \<open>n\<close> times.\<close>

definition steps_on :: "MazeData \<Rightarrow> FrontierClass \<Rightarrow> nat \<Rightarrow> error + (Maze \<times> IFrontier)" where
  "steps_on m frontierClass n =
     (case Maze_constructor m of
        Inl e \<Rightarrow> Inl e
      | Inr this \<Rightarrow>
          (case solve this frontierClass of Inl e \<Rightarrow> Inl e | Inr c \<Rightarrow> run_steps n c))"

text \<open>The states of the cells that are no walls, row by row.\<close>

definition open_states :: "MazeData \<Rightarrow> State list" where
  "open_states m = concat (map (\<lambda>i. concat (map (\<lambda>j.
       if type (m ! i ! j) \<noteq> Wall then [(int i, int j)] else []) [0..<length (m ! i)]))
     [0..<length m])"

text \<open>The grids and templates of the examples.\<close>

definition square_grid :: MazeData where
  "square_grid =
     [[\<lparr>type = Start, cellState = Unexplored, label = None\<rparr>,
       \<lparr>type = Goal, cellState = Unexplored, label = None\<rparr>],
      [\<lparr>type = Space, cellState = Unexplored, label = None\<rparr>,
       \<lparr>type = Space, cellState = Unexplored, label = None\<rparr>]]"

definition detour_template :: string where
  "detour_template = ''   #B'' @ [CHR 0x0A] @ ''A# # '' @ [CHR 0x0A] @ ''     ''"

definition square_template :: string where
  "square_template = ''AB'' @ [CHR 0x0A] @ ''  ''"

text \<open>A state whose cell lies inside the stored dimensions and is no wall.\<close>

definition open_cell :: "Maze \<Rightarrow> State \<Rightarrow> bool" where
  "open_cell this s = (case s of (r, c) \<Rightarrow>
     0 \<le> r \<and> r < height this \<and> 0 \<le> c \<and> c < width this \<and>
     type (maze this ! nat r ! nat c) \<noteq> Wall)"

text \<open>What can be seen of a closure: the outcome, the explored count, the annotation of
  every cell, and the states of the frontier in the order of its array.\<close>

definition observe :: "Maze \<times> IFrontier
    \<Rightarrow> SolutionType \<times> int \<times> MazeCellState list list \<times> State list" where
  "observe c = (solutionType (fst c), numExplored (fst c), map (map cellState) (maze (fst c)),
     map state (nodes_of (snd c)))"

text \<open>A search from a template after \<open>n\<close> direct calls of the closure, and after \<open>n\<close>
  steps.\<close>

definition after_calls :: "string \<Rightarrow> FrontierClass \<Rightarrow> nat \<Rightarrow> error + (Maze \<times> IFrontier)" where
  "after_calls template frontierClass n =
     (case start_search template frontierClass of Inl e \<Rightarrow> Inl e | Inr c \<Rightarrow> call_next n c)"

definition after_steps :: "string \<Rightarrow> FrontierClass \<Rightarrow> nat \<Rightarrow> error + (Maze \<times> IFrontier)" where
  "after_steps template frontierClass n =
     (case start_search template frontierClass of Inl e \<Rightarrow> Inl e | Inr c \<Rightarrow> run_steps n c)"

text \<open>The nodes of the frontier, in the order of its array, as state and path cost.\<close>

definition frontier_costs :: "Maze \<times> IFrontier \<Rightarrow> (State \<times> int) list" where
  "frontier_costs c = map (\<lambda>n. (state n, pathCost n)) (nodes_of (snd c))"

text \<open>The node the next call removes, as its state and its parent chain.\<close>

definition removed_path :: "Maze \<times> IFrontier \<Rightarrow> (State \<times> State list) option" where
  "removed_path c = (case remove (snd c) of
     Inr (Some node, fr) \<Rightarrow> Some (state node, path_of node) | _ \<Rightarrow> None)"

section \<open>Notions for the priority queue\<close>

text \<open>The heap property of the array: no element, other than the root, comes strictly
  before its parent.\<close>

definition heap_property :: "('a \<Rightarrow> 'a \<Rightarrow> bool) \<Rightarrow> 'a list \<Rightarrow> bool" where
  "heap_property cmp h = list_all (\<lambda>i. \<not> cmp (h ! i) (h ! pq_parent i)) [1..<length h]"

text \<open>A strict order is irreflexive and transitive; a strict weak order is one whose
  incomparability is transitive too, as that of every comparison of a numeric key.\<close>

definition strict_order :: "('a \<Rightarrow> 'a \<Rightarrow> bool) \<Rightarrow> bool" where
  "strict_order cmp = ((\<forall>a. \<not> cmp a a) \<and> (\<forall>a b c. cmp a b \<and> cmp b c \<longrightarrow> cmp a c))"

definition strict_weak_order :: "('a \<Rightarrow> 'a \<Rightarrow> bool) \<Rightarrow> bool" where
  "strict_weak_order cmp = (strict_order cmp \<and>
     (\<forall>a b c. \<not> cmp a b \<and> \<not> cmp b c \<longrightarrow> \<not> cmp a c))"

text \<open>Sequences of operations on a queue, run from left to right.\<close>

datatype 'a pq_op = Push 'a | Pop

fun apply_op :: "('a \<Rightarrow> 'a \<Rightarrow> bool) \<Rightarrow> 'a pq_op \<Rightarrow> 'a list \<Rightarrow> 'a list" where
  "apply_op cmp (Push v) h = pq_push cmp h [v]"
| "apply_op cmp Pop h = snd (pq_pop cmp h)"

definition apply_ops :: "('a \<Rightarrow> 'a \<Rightarrow> bool) \<Rightarrow> 'a pq_op list \<Rightarrow> 'a list \<Rightarrow> 'a list" where
  "apply_ops cmp ops h = fold (apply_op cmp) ops h"

text \<open>The array of \<open>pop\<close> before \<open>_siftDown\<close>: the last element swapped to the root,
  then the array shortened by one.\<close>

definition pq_swap_root :: "'a list \<Rightarrow> 'a list" where
  "pq_swap_root h = butlast (if length h - 1 > 0 then pq_swap h 0 (length h - 1) else h)"

text \<open>A strict order on pairs that is not weak: both components are smaller.\<close>

definition dominates :: "nat \<times> nat \<Rightarrow> nat \<times> nat \<Rightarrow> bool" where
  "dominates a b = (fst a < fst b \<and> snd a < snd b)"

text \<open>The loop invariants of \<open>_siftUp\<close> and \<open>_siftDown\<close>: the heap property but
  for the place \<open>k\<close> that is being moved.\<close>

definition up_inv :: "('a \<Rightarrow> 'a \<Rightarrow> bool) \<Rightarrow> 'a list \<Rightarrow> nat \<Rightarrow> bool" where
  "up_inv cmp h k = (k < length h \<and>
     (\<forall>i. 0 < i \<and> i < length h \<and> i \<noteq> k \<longrightarrow> \<not> cmp (h ! i) (h ! pq_parent i)) \<and>
     (\<forall>i. 0 < i \<and> i < length h \<and> pq_parent i = k \<and> 0 < k \<longrightarrow>
        \<not> cmp (h ! i) (h ! pq_parent k)))"

definition down_inv :: "('a \<Rightarrow> 'a \<Rightarrow> bool) \<Rightarrow> 'a list \<Rightarrow> nat \<Rightarrow> bool" where
  "down_inv cmp h k = (
     (\<forall>i. 0 < i \<and> i < length h \<and> pq_parent i \<noteq> k \<longrightarrow> \<not> cmp (h ! i) (h ! pq_parent i)) \<and>
     (\<forall>i. 0 < i \<and> i < length h \<and> pq_parent i = k \<and> 0 < k \<longrightarrow>
        \<not> cmp (h ! i) (h ! pq_parent k)))"

section \<open>Notions for the search\<close>

text \<open>Two grids with the same type in every place; then also with the same
  dimensions.\<close>

definition same_types :: "MazeData \<Rightarrow> MazeData \<Rightarrow> bool" where
  "same_types m m' = (map (map type) m' = map (map type) m)"

text \<open>The child node that the loop body creates for a neighbour.\<close>

definition child_of :: "Node \<Rightarrow> State \<Rightarrow> Action \<times> State \<Rightarrow> Node" where
  "child_of node g candidate = (case candidate of (a, s) \<Rightarrow>
     Node s (Some node) (Some a) (calcManhattanDistance s g) (pathCost node + 1))"

text \<open>The annotation of the cell of a state, if the cell exists.\<close>

definition state_at :: "MazeData \<Rightarrow> State \<Rightarrow> MazeCellState option" where
  "state_at m s = map_option cellState (cell_at m s)"

text \<open>The test of the loop body: the frontier does not hold the state and the cell is
  not marked \<open>Explored\<close>.\<close>

definition addable :: "MazeData \<Rightarrow> IFrontier \<Rightarrow> State \<Rightarrow> bool" where
  "addable m fr s = (\<not> containers_state fr s \<and> state_at m s \<noteq> Some Explored)"

text \<open>The frontier after the children of some neighbours were added in turn.\<close>

definition add_children :: "Node \<Rightarrow> State \<Rightarrow> (Action \<times> State) list \<Rightarrow> IFrontier \<Rightarrow> IFrontier" where
  "add_children node g xs fr = fold (\<lambda>x f. add f (child_of node g x)) xs fr"

text \<open>The neighbours of a state in a grid: the candidates that are passable.\<close>

definition nbrs :: "MazeData \<Rightarrow> State \<Rightarrow> (Action \<times> State) list" where
  "nbrs m s = filter (\<lambda>x. passable m (snd x)) (candidates s)"

text \<open>A node is sound: its parent chain is a path of the grid from the start, and its
  path cost is the number of edges of that path.\<close>

definition node_ok :: "MazeData \<Rightarrow> State \<Rightarrow> Node \<Rightarrow> bool" where
  "node_ok m s0 n = (is_path m (path_of n) \<and> hd (path_of n) = s0 \<and>
     pathCost n = int (length (path_of n)) - 1)"

text \<open>What keeps a call of the closure from raising: the stored dimensions fit the array
  and every node of the frontier is sound.\<close>

definition inv_safe :: "Maze \<times> IFrontier \<Rightarrow> bool" where
  "inv_safe c = (dims_ok (fst c) \<and>
     (\<forall>n\<in>set (nodes_of (snd c)). node_ok (maze (fst c)) (start (fst c)) n))"

text \<open>The states held by a frontier.\<close>

definition frontier_states :: "IFrontier \<Rightarrow> State set" where
  "frontier_states fr = state ` set (nodes_of fr)"

text \<open>The invariant of the closure: no two nodes of the frontier share a state, and no
  state of the frontier has a cell marked \<open>Explored\<close>.\<close>

definition run_inv :: "Maze \<times> IFrontier \<Rightarrow> bool" where
  "run_inv c = (inv_safe c \<and> distinct (map state (nodes_of (snd c))) \<and>
     frontier_states (snd c) \<inter> marked Explored (maze (fst c)) = {})"

text \<open>What a call leaves unchanged: start, goal, dimensions and the type of every cell.\<close>

definition frame :: "Maze \<times> IFrontier \<Rightarrow> Maze \<times> IFrontier \<Rightarrow> bool" where
  "frame c c' = (start (fst c') = start (fst c) \<and> goal (fst c') = goal (fst c) \<and>
     width (fst c') = width (fst c) \<and> height (fst c') = height (fst c) \<and>
     same_types (maze (fst c)) (maze (fst c')))"

text \<open>The index pairs, among those scanned, whose cell has a given type.\<close>

definition positions_of :: "MazeCellType \<Rightarrow> MazeData \<Rightarrow> (nat \<times> nat) list \<Rightarrow> (nat \<times> nat) list" where
  "positions_of t m ps = filter (\<lambda>p. type (m ! fst p ! snd p) = t) ps"

text \<open>The value of \<open>start\<close> (or \<open>goal\<close>) after a scan that met the given cells of
  that type and did not throw.\<close>

definition pick :: "State option \<Rightarrow> (nat \<times> nat) list \<Rightarrow> State option" where
  "pick acc ps = (case ps of [] \<Rightarrow> acc | p # _ \<Rightarrow> Some (int (fst p), int (snd p)))"

text \<open>The scan throws for a type when it meets a second cell of it.\<close>

definition conflict :: "State option \<Rightarrow> (nat \<times> nat) list \<Rightarrow> bool" where
  "conflict acc ps = (length ps > 1 \<or> (acc \<noteq> None \<and> ps \<noteq> []))"

text \<open>The index pairs the constructor scans, in its order.\<close>

definition all_positions :: "MazeData \<Rightarrow> (nat \<times> nat) list" where
  "all_positions m = List.product [0..<length m] [0..<length (m ! 0)]"

text \<open>The number of cells whose annotation is not \<open>Explored\<close>: it falls with every call
  that expands a node.\<close>

definition remaining :: "MazeData \<Rightarrow> nat" where
  "remaining m = card ({s. cell_at m s \<noteq> None} - marked Explored m)"

text \<open>A set of explored states that the frontier avoids, and that stays explored while the
  search goes on.\<close>

definition avoids :: "State set \<Rightarrow> Maze \<times> IFrontier \<Rightarrow> bool" where
  "avoids E c = (E \<inter> frontier_states (snd c) = {} \<and>
     (solutionType (fst c) = Continue \<longrightarrow> E \<subseteq> marked Explored (maze (fst c))))"

text \<open>The invariant of the breadth-first search on a grid \<open>g\<close> with start \<open>s0\<close>, for the
  explored states \<open>E\<close> and the queue \<open>q\<close>: no path from the start to the state of a queued
  node has fewer edges than its path cost; the path costs in the queue ascend and differ by
  at most one; every state that a path from the start reaches with fewer edges than the
  path cost of the head is explored; every passable neighbour of an explored state is
  explored or queued; and so is the start.\<close>

definition bfs_inv :: "MazeData \<Rightarrow> State \<Rightarrow> State set \<Rightarrow> Node list \<Rightarrow> bool" where
  "bfs_inv g s0 E q =
    ((\<forall>n\<in>set q. \<forall>p. is_path g p \<and> hd p = s0 \<and> last p = state n \<longrightarrow>
         pathCost n \<le> int (length p) - 1) \<and>
     sorted (map pathCost q) \<and>
     (q \<noteq> [] \<longrightarrow> pathCost (last q) \<le> pathCost (hd q) + 1) \<and>
     (q \<noteq> [] \<longrightarrow> (\<forall>p. is_path g p \<and> hd p = s0 \<and> int (length p) - 1 < pathCost (hd q) \<longrightarrow>
         last p \<in> E)) \<and>
     (\<forall>e\<in>E. \<forall>t. passable g t \<and> adjacent e t \<longrightarrow> t \<in> E \<union> state ` set q) \<and>
     s0 \<in> E \<union> state ` set q)"

text \<open>The type of the cell of a state, if the cell exists.\<close>

definition type_at :: "MazeData \<Rightarrow> State \<Rightarrow> MazeCellType option" where
  "type_at m s = map_option type (cell_at m s)"

text \<open>No cell of the grid is marked \<open>Explored\<close>.\<close>

definition unexplored :: "MazeData \<Rightarrow> bool" where
  "unexplored m = list_all (list_all (\<lambda>cell. cellState cell \<noteq> Explored)) m"

text \<open>The state of a breadth-first search on the grid \<open>g\<close>: the invariant of the closure,
  the cell types of \<open>g\<close>, a queue as frontier, the breadth-first invariant, and a goal cell
  that is not marked \<open>Explored\<close>.\<close>

definition bfs_state :: "MazeData \<Rightarrow> Maze \<times> IFrontier \<Rightarrow> bool" where
  "bfs_state g c = (run_inv c \<and> same_types g (maze (fst c)) \<and>
     (\<exists>q. snd c = QueueFrontier q) \<and>
     bfs_inv g (start (fst c)) (marked Explored (maze (fst c))) (nodes_of (snd c)) \<and>
     goal (fst c) \<notin> marked Explored (maze (fst c)))"

section \<open>Templates\<close>

lemma split_lines_acc_clean:
  "\<forall>c\<in>set l. c \<noteq> CHR 0x0A \<and> c \<noteq> CHR 0x0D \<Longrightarrow> split_lines_acc cur l = [cur @ l]"
proof (induction cur l rule: split_lines_acc.induct)
  case (1 cur) then show ?case by simp
next
  case (2 cur c) then show ?case by simp
next
  case (3 cur c d cs) then show ?case by simp
qed

lemma split_lines_acc_line:
  "\<forall>c\<in>set l. c \<noteq> CHR 0x0A \<and> c \<noteq> CHR 0x0D \<Longrightarrow>
   split_lines_acc cur (l @ CHR 0x0A # rest) = (cur @ l) # split_lines_acc [] rest"
proof (induction l arbitrary: cur)
  case Nil
  show ?case by (cases rest) simp_all
next
  case (Cons c l)
  have step: "split_lines_acc cur (c # l @ CHR 0x0A # rest) =
        split_lines_acc (cur @ [c]) (l @ CHR 0x0A # rest)"
    using Cons.prems by (cases l) simp_all
  show ?case using Cons.IH[of "cur @ [c]"] Cons.prems step by simp
qed

lemma split_lines_join:
  "ls \<noteq> [] \<Longrightarrow> \<forall>l\<in>set ls. \<forall>c\<in>set l. c \<noteq> CHR 0x0A \<and> c \<noteq> CHR 0x0D \<Longrightarrow>
   split_lines (join [CHR 0x0A] ls) = ls"
proof (induction "[CHR 0x0A]" ls rule: join.induct)
  case 1 then show ?case by simp
next
  case (2 x) then show ?case by (simp add: split_lines_def split_lines_acc_clean)
next
  case (3 x y ys)
  then show ?case by (simp add: split_lines_def split_lines_acc_line)
qed

lemma join_empty_sep: "join [] xs = concat xs"
  by (induction "[]::string" xs rule: join.induct) simp_all

lemma cell_char_clean: "\<forall>c\<in>set (cell_char cell). c \<noteq> CHR 0x0A \<and> c \<noteq> CHR 0x0D"
  by (simp add: cell_char_def)

lemma build_cell_char: "build_row (cell_char cell @ chs) =
   (case build_row chs of Inl e \<Rightarrow> Inl e | Inr row \<Rightarrow> Inr (fresh_cell cell # row))"
  by (cases "type cell")
     (simp_all add: cell_char_def build_cell_def fresh_cell_def split: sum.split)

lemma build_row_template: "build_row (join [] (map cell_char row)) = Inr (map fresh_cell row)"
  unfolding join_empty_sep by (induction row) (simp_all add: build_cell_char)

lemma build_rows_template:
  "build_rows (map (\<lambda>row. join [] (map cell_char row)) m) = Inr (map (map fresh_cell) m)"
  by (induction m) (simp_all add: build_row_template)

text \<open>C7. Parsing the template of a non-empty grid succeeds and yields the grid with
  every cell made fresh: the same number of rows, the same row lengths and the same type
  in every position, while the state of a cell is the one its type fixes (\<open>Unreachable\<close>
  for a wall, \<open>Unexplored\<close> otherwise) and the label is absent, whatever they were in
  the grid that was serialized.\<close>

theorem buildMaze_mazeToTemplate:
  assumes "m \<noteq> []"
  shows "buildMaze (mazeToTemplate m) = Inr (map (map fresh_cell) m) \<and>
         length (map (map fresh_cell) m) = length m \<and>
         map length (map (map fresh_cell) m) = map length m \<and>
         map (map type) (map (map fresh_cell) m) = map (map type) m"
proof -
  let ?ls = "map (\<lambda>row. join [] (map cell_char row)) m"
  have "?ls \<noteq> []" using assms by simp
  moreover have "\<forall>l\<in>set ?ls. \<forall>c\<in>set l. c \<noteq> CHR 0x0A \<and> c \<noteq> CHR 0x0D"
    using cell_char_clean by (auto simp: join_empty_sep)
  ultimately have "split_lines (join [CHR 0x0A] ?ls) = ?ls" by (rule split_lines_join)
  then have "buildMaze (mazeToTemplate m) = Inr (map (map fresh_cell) m)"
    by (simp add: buildMaze_def mazeToTemplate_def build_rows_template)
  moreover have "map (map type) (map (map fresh_cell) m) = map (map type) m"
    by (simp add: fresh_cell_def comp_def)
  ultimately show ?thesis by (simp add: comp_def)
qed

theorem buildMaze_mazeToTemplate_witness:
  "buildMaze (mazeToTemplate
      [[\<lparr>type = Start, cellState = Explored, label = Some ''0''\<rparr>,
        \<lparr>type = Wall, cellState = Unreachable, label = None\<rparr>],
       [\<lparr>type = Space, cellState = Frontier, label = Some ''1+2''\<rparr>,
        \<lparr>type = Goal, cellState = SolutionPath, label = None\<rparr>]]) =
   Inr [[\<lparr>type = Start, cellState = Unexplored, label = None\<rparr>,
         \<lparr>type = Wall, cellState = Unreachable, label = None\<rparr>],
        [\<lparr>type = Space, cellState = Unexplored, label = None\<rparr>,
         \<lparr>type = Goal, cellState = Unexplored, label = None\<rparr>]]"
  using buildMaze_mazeToTemplate
    [of "[[\<lparr>type = Start, cellState = Explored, label = Some ''0''\<rparr>,
           \<lparr>type = Wall, cellState = Unreachable, label = None\<rparr>],
          [\<lparr>type = Space, cellState = Frontier, label = Some ''1+2''\<rparr>,
           \<lparr>type = Goal, cellState = SolutionPath, label = None\<rparr>]]"]
  by (simp add: fresh_cell_def)

section \<open>Reset\<close>

text \<open>C6. Whatever the page holds (so also the grid left by any number of steps of any
  search, which is the array the maze object shares with the page), after \<open>reset\<close>
  the rows are as many and as long as before, every cell has the type it had, its state
  is \<open>Unreachable\<close> if that type is \<open>Wall\<close> and \<open>Unexplored\<close> otherwise, and its
  label is the empty string.\<close>

theorem reset_cells:
  "map (map type) (mazeData (reset page)) = map (map type) (mazeData page) \<and>
   map (map cellState) (mazeData (reset page)) =
     map (map (\<lambda>cell. if type cell = Wall then Unreachable else Unexplored)) (mazeData page) \<and>
   map (map label) (mazeData (reset page)) = map (map (\<lambda>cell. Some [])) (mazeData page)"
  by (simp add: reset_def reset_cell_def comp_def)

section \<open>Removal from an empty frontier\<close>

text \<open>C4. On the empty frontier, \<open>remove\<close> of the stack and of the queue fails with the
  empty-frontier error, while \<open>remove\<close> of the greedy and of the A* frontier fails with
  nothing: it returns \<open>undefined\<close> as the node and leaves the heap empty.\<close>

theorem remove_empty:
  "remove (new_frontier StackFrontierClass) = Inl EmptyFrontier \<and>
   remove (new_frontier QueueFrontierClass) = Inl EmptyFrontier \<and>
   remove (new_frontier GreedBestFrontierClass) = Inr (None, GreedBestFrontier []) \<and>
   remove (new_frontier AStarFrontierClass) = Inr (None, AStarFrontier [])"
  by (simp add: pq_pop_def pq_peek_def siftDown_def siftDown_loop.simps pq_left_def pq_right_def)

section \<open>Neighbours\<close>

lemma filter_err_total:
  "(\<And>x. x \<in> set xs \<Longrightarrow> p x = Inr (q x)) \<Longrightarrow> filter_err p xs = Inr (filter q xs)"
  by (induction xs) simp_all

lemma cell_at_in_bounds:
  assumes "dims_ok this" "0 \<le> r" "r < height this" "0 \<le> c" "c < width this"
  shows "cell_at (maze this) (r, c) = Some (maze this ! nat r ! nat c)"
proof -
  have "nat r < length (maze this)" using assms by (simp add: dims_ok_def)
  then have "maze this ! nat r \<in> set (maze this)" by simp
  then have "int (length (maze this ! nat r)) = width this"
    using assms(1) by (simp add: dims_ok_def list_all_iff)
  then show ?thesis using assms by (simp add: cell_at_def dims_ok_def)
qed

lemma candidate_ok_dims:
  assumes "dims_ok this"
  shows "candidate_ok this (a, s) = Inr (open_cell this s)"
proof (cases s)
  case (Pair r c)
  show ?thesis
  proof (cases "0 \<le> r \<and> r < height this \<and> 0 \<le> c \<and> c < width this")
    case True
    then show ?thesis using cell_at_in_bounds[OF assms, of r c] Pair
      by (simp add: candidate_ok_def open_cell_def)
  next
    case False
    then show ?thesis using Pair by (auto simp: candidate_ok_def open_cell_def)
  qed
qed

text \<open>C5. On a maze object whose stored height and width are those of its rectangular
  array, \<open>neighbors\<close> raises nothing and returns, of the four candidates up, down, left,
  right in this order, exactly those whose cell is inside the bounds and is no wall
  (\<open>open_cell\<close>), in the same order. This holds for every state, in bounds or not.\<close>

theorem neighbors_filter:
  assumes "dims_ok this"
  shows "neighbors this (row, col) =
     Inr (filter (\<lambda>(a, s). open_cell this s)
        [(Up, (row - 1, col)), (Down, (row + 1, col)), (Left, (row, col - 1)),
         (Right, (row, col + 1))])"
proof -
  have "filter_err (candidate_ok this) (candidates (row, col)) =
        Inr (filter (\<lambda>(a, s). open_cell this s) (candidates (row, col)))"
    by (rule filter_err_total) (auto simp: candidate_ok_dims[OF assms])
  then show ?thesis by (simp add: neighbors_def candidates_def)
qed

theorem neighbors_filter_witness:
  "neighbors \<lparr>maze = [[\<lparr>type = Start, cellState = Unexplored, label = None\<rparr>,
                        \<lparr>type = Space, cellState = Unexplored, label = None\<rparr>],
                       [\<lparr>type = Wall, cellState = Unreachable, label = None\<rparr>,
                        \<lparr>type = Goal, cellState = Unexplored, label = None\<rparr>]],
       numExplored = 0, solutionType = Pending, start = (0, 0), goal = (1, 1),
       width = 2, height = 2\<rparr> (0, 1) = Inr [(Down, (1, 1)), (Left, (0, 0))]"
  using neighbors_filter
    [of "\<lparr>maze = [[\<lparr>type = Start, cellState = Unexplored, label = None\<rparr>,
                        \<lparr>type = Space, cellState = Unexplored, label = None\<rparr>],
                       [\<lparr>type = Wall, cellState = Unreachable, label = None\<rparr>,
                        \<lparr>type = Goal, cellState = Unexplored, label = None\<rparr>]],
       numExplored = 0, solutionType = Pending, start = (0, 0), goal = (1, 1),
       width = 2, height = 2\<rparr>" 0 1]
  by (simp add: dims_ok_def open_cell_def)

section \<open>Calls after a terminal outcome\<close>

text \<open>C10. On the grid with rows \<open>AB\<close> and two spaces, searched breadth first, the third
  call of the closure finds the solution while the frontier still holds the state (1, 1).
  A fourth call removes that node, raises the explored count to 4, marks (1, 1)
  \<open>Explored\<close> and turns the goal cell (0, 1) from \<open>SolutionPath\<close> back to \<open>Frontier\<close>,
  adding it to the frontier again; the outcome stays \<open>FoundSolution\<close>. The timer callback
  \<open>demoRunner\<close>, which calls the closure only while the outcome is \<open>Continue\<close>, leaves
  every closure with another outcome as it is.\<close>

theorem next_has_no_terminal_guard:
  "map_sum id observe (after_calls square_template QueueFrontierClass 3) =
     Inr (FoundSolution, 3, [[SolutionPath, SolutionPath], [Explored, Frontier]], [(1, 1)]) \<and>
   map_sum id observe (after_calls square_template QueueFrontierClass 4) =
     Inr (FoundSolution, 4, [[SolutionPath, Frontier], [Explored, Explored]], [(0, 1)]) \<and>
   (\<forall>c d. solutionType (fst c) \<noteq> Continue \<longrightarrow> demoRunner (c, d) = Inr (c, Done))"
proof -
  have a: "map_sum id observe (after_calls square_template QueueFrontierClass 3) =
     Inr (FoundSolution, 3, [[SolutionPath, SolutionPath], [Explored, Frontier]], [(1, 1)])"
    by code_simp
  have b: "map_sum id observe (after_calls square_template QueueFrontierClass 4) =
     Inr (FoundSolution, 4, [[SolutionPath, Frontier], [Explored, Explored]], [(0, 1)])"
    by code_simp
  have c: "\<forall>c d. solutionType (fst c) \<noteq> Continue \<longrightarrow> demoRunner (c, d) = Inr (c, Done)"
    by (simp add: demoRunner_def)
  from a b c show ?thesis by blast
qed

theorem next_has_no_terminal_guard_witness:
  "demoRunner ((\<lparr>maze = [], numExplored = 3, solutionType = FoundSolution, start = (0, 0),
       goal = (0, 1), width = 2, height = 2\<rparr>, QueueFrontier []), Running) =
   Inr ((\<lparr>maze = [], numExplored = 3, solutionType = FoundSolution, start = (0, 0),
       goal = (0, 1), width = 2, height = 2\<rparr>, QueueFrontier []), Done)"
  using next_has_no_terminal_guard by simp

section \<open>A* on a grid with a detour\<close>

text \<open>C1, at one grid. The template has the rows \<open>"   #B"\<close>, \<open>"A# # "\<close> and five spaces;
  the start is (1, 0) and the goal (0, 4). After six steps of the A* search the frontier
  holds (2, 1) with path cost 2 and (2, 2) with path cost 5, added from (1, 2); the seventh
  step expands (2, 1) and leaves (2, 2) in the frontier as it is. After eleven steps the
  outcome is still \<open>Continue\<close> and the frontier holds one node, of the goal state, whose
  parent chain has 10 states, that is 9 edges. The twelfth step removes it and ends in
  \<open>FoundSolution\<close>, marking these 10 cells. The grid has a path from the start to the
  goal with 8 states, that is 7 edges.\<close>

theorem astar_detour:
  "map_sum id (\<lambda>c. (start (fst c), goal (fst c)))
     (start_search detour_template AStarFrontierClass) = Inr ((1, 0), (0, 4)) \<and>
   map_sum id frontier_costs (after_steps detour_template AStarFrontierClass 6) =
     Inr [((2, 1), 2), ((2, 2), 5)] \<and>
   map_sum id frontier_costs (after_steps detour_template AStarFrontierClass 7) =
     Inr [((2, 2), 5)] \<and>
   map_sum id observe (after_steps detour_template AStarFrontierClass 11) =
     Inr (Continue, 11,
       [[Explored, Explored, Explored, Unreachable, Frontier],
        [Explored, Unreachable, Explored, Unreachable, Explored],
        [Explored, Explored, Explored, Explored, Explored]], [(0, 4)]) \<and>
   map_sum id removed_path (after_steps detour_template AStarFrontierClass 11) =
     Inr (Some ((0, 4),
       [(1, 0), (0, 0), (0, 1), (0, 2), (1, 2), (2, 2), (2, 3), (2, 4), (1, 4), (0, 4)])) \<and>
   map_sum id observe (after_steps detour_template AStarFrontierClass 12) =
     Inr (FoundSolution, 12,
       [[SolutionPath, SolutionPath, SolutionPath, Unreachable, SolutionPath],
        [SolutionPath, Unreachable, SolutionPath, Unreachable, SolutionPath],
        [Explored, Explored, SolutionPath, SolutionPath, SolutionPath]], []) \<and>
   map_sum id (\<lambda>m. is_path m [(1, 0), (2, 0), (2, 1), (2, 2), (2, 3), (2, 4), (1, 4), (0, 4)])
     (buildMaze detour_template) = Inr True"
  by code_simp

section \<open>The heap property\<close>

lemma heap_property_iff:
  "heap_property cmp h \<longleftrightarrow> (\<forall>i. 0 < i \<and> i < length h \<longrightarrow> \<not> cmp (h ! i) (h ! pq_parent i))"
  by (auto simp: heap_property_def list_all_iff)

lemma parent_less: "0 < i \<Longrightarrow> pq_parent i < i"
  by (simp add: pq_parent_def)

lemma parent_eq_iff: "0 < i \<Longrightarrow> pq_parent i = k \<longleftrightarrow> i = pq_left k \<or> i = pq_right k"
  by (auto simp: pq_parent_def pq_left_def pq_right_def)

lemma swap_length [simp]: "length (pq_swap h i j) = length h"
  by (simp add: pq_swap_def)

lemma swap_nth:
  "i < length h \<Longrightarrow> j < length h \<Longrightarrow>
   pq_swap h i j ! n = (if n = j then h ! i else if n = i then h ! j else h ! n)"
  by (auto simp: pq_swap_def nth_list_update)

lemma swap_mset: "i < length h \<Longrightarrow> j < length h \<Longrightarrow> mset (pq_swap h i j) = mset h"
  by (simp add: pq_swap_def mset_swap)

lemma up_inv_step:
  assumes swo: "strict_weak_order cmp" and inv: "up_inv cmp h k"
    and k: "0 < k" and c: "cmp (h ! k) (h ! pq_parent k)"
  shows "up_inv cmp (pq_swap h k (pq_parent k)) (pq_parent k)"
proof -
  let ?p = "pq_parent k" and ?h = "pq_swap h k (pq_parent k)"
  have irr: "\<And>a. \<not> cmp a a" and tr: "\<And>a b c. cmp a b \<Longrightarrow> cmp b c \<Longrightarrow> cmp a c"
    and nt: "\<And>a b c. \<not> cmp a b \<Longrightarrow> \<not> cmp b c \<Longrightarrow> \<not> cmp a c"
    using swo unfolding strict_weak_order_def strict_order_def by blast+
  have kl: "k < length h" and pk: "?p < k" and pl: "?p < length h"
    using inv k parent_less[of k] by (auto simp: up_inv_def)
  have h1: "\<And>i. 0 < i \<Longrightarrow> i < length h \<Longrightarrow> i \<noteq> k \<Longrightarrow> \<not> cmp (h ! i) (h ! pq_parent i)"
    and h2: "\<And>i. 0 < i \<Longrightarrow> i < length h \<Longrightarrow> pq_parent i = k \<Longrightarrow> \<not> cmp (h ! i) (h ! ?p)"
    using inv k by (auto simp: up_inv_def)
  have nth: "\<And>n. ?h ! n = (if n = ?p then h ! k else if n = k then h ! ?p else h ! n)"
    using swap_nth[OF kl pl] by simp
  have A: "\<not> cmp (?h ! i) (?h ! pq_parent i)" if i: "0 < i" "i < length h" "i \<noteq> ?p" for i
  proof (cases "i = k")
    case True
    have "\<not> cmp (h ! ?p) (h ! k)" using c irr tr by blast
    then show ?thesis using True pk by (simp add: nth)
  next
    case False
    have pi: "pq_parent i < i" using i parent_less by simp
    show ?thesis
    proof (cases "pq_parent i = k")
      case True
      then show ?thesis using h2[OF i(1,2)] False i pk by (simp add: nth)
    next
      case nk: False
      show ?thesis
      proof (cases "pq_parent i = ?p")
        case True
        have "\<not> cmp (h ! i) (h ! ?p)" using h1[OF i(1,2) False] True by simp
        then have "\<not> cmp (h ! i) (h ! k)" using c tr by blast
        then show ?thesis using True False i by (simp add: nth)
      next
        case False2: False
        then show ?thesis using h1[OF i(1,2) False] nk False i by (simp add: nth)
      qed
    qed
  qed
  have B: "\<not> cmp (?h ! i) (?h ! pq_parent ?p)"
    if i: "0 < i" "i < length h" "pq_parent i = ?p" "0 < ?p" for i
  proof -
    have pp: "pq_parent ?p < ?p" using i(4) parent_less by simp
    have hp: "\<not> cmp (h ! ?p) (h ! pq_parent ?p)" using h1[of ?p] i(4) pl pk by simp
    have ip: "i \<noteq> ?p" using i parent_less[of i] by auto
    show ?thesis
    proof (cases "i = k")
      case True
      then show ?thesis using hp pp pk by (simp add: nth)
    next
      case False
      have "\<not> cmp (h ! i) (h ! ?p)" using h1[OF i(1,2) False] i(3) by simp
      then have "\<not> cmp (h ! i) (h ! pq_parent ?p)" using hp nt by blast
      then show ?thesis using False ip pp pk by (simp add: nth)
    qed
  qed
  show ?thesis unfolding up_inv_def using A B pl by simp
qed

lemma siftUp_loop_heap:
  "strict_weak_order cmp \<Longrightarrow> up_inv cmp h k \<Longrightarrow> heap_property cmp (siftUp_loop cmp h k)"
proof (induction cmp h k rule: siftUp_loop.induct)
  case (1 cmp h node)
  show ?case
  proof (cases "node > 0 \<and> pq_greater cmp h node (pq_parent node)")
    case True
    then have "up_inv cmp (pq_swap h node (pq_parent node)) (pq_parent node)"
      using up_inv_step[OF "1.prems"] by (simp add: pq_greater_def)
    then show ?thesis using "1.IH" True "1.prems"(1)
      by (subst siftUp_loop.simps) simp
  next
    case False
    then have "heap_property cmp h"
      using "1.prems"(2) unfolding heap_property_iff up_inv_def pq_greater_def by metis
    then show ?thesis using False by (subst siftUp_loop.simps) auto
  qed
qed

lemma down_inv_step:
  assumes so: "strict_order cmp" and inv: "down_inv cmp h k"
    and cond: "(pq_left k < length h \<and> cmp (h ! pq_left k) (h ! k)) \<or>
               (pq_right k < length h \<and> cmp (h ! pq_right k) (h ! k))"
    and m: "m = (if pq_right k < length h \<and> cmp (h ! pq_right k) (h ! pq_left k)
                 then pq_right k else pq_left k)"
  shows "down_inv cmp (pq_swap h k m) m"
proof -
  let ?l = "pq_left k" and ?r = "pq_right k" and ?h = "pq_swap h k m"
  have irr: "\<And>a. \<not> cmp a a" and tr: "\<And>a b c. cmp a b \<Longrightarrow> cmp b c \<Longrightarrow> cmp a c"
    using so unfolding strict_order_def by blast+
  have asym: "\<And>a b. cmp a b \<Longrightarrow> \<not> cmp b a" using irr tr by blast
  have lr: "?l < ?r" "k < ?l" by (simp_all add: pq_left_def pq_right_def)
  have ll: "?l < length h" using cond lr by auto
  have ml: "m < length h" and km: "k < m" and mlr: "m = ?l \<or> m = ?r"
    using m ll lr by (auto split: if_splits)
  have kl: "k < length h" using km ml by simp
  have pm: "pq_parent m = k" using mlr by (auto simp: pq_parent_def pq_left_def pq_right_def)
  have h1: "\<And>i. 0 < i \<Longrightarrow> i < length h \<Longrightarrow> pq_parent i \<noteq> k \<Longrightarrow>
              \<not> cmp (h ! i) (h ! pq_parent i)"
    and h2: "\<And>i. 0 < i \<Longrightarrow> i < length h \<Longrightarrow> pq_parent i = k \<Longrightarrow> 0 < k \<Longrightarrow>
              \<not> cmp (h ! i) (h ! pq_parent k)"
    using inv by (auto simp: down_inv_def)
  have nth: "\<And>n. ?h ! n = (if n = m then h ! k else if n = k then h ! m else h ! n)"
    using swap_nth[OF kl ml] by simp
  have top: "\<not> cmp (h ! k) (h ! m)"
  proof (cases "?r < length h \<and> cmp (h ! ?r) (h ! ?l)")
    case True
    then have "m = ?r" using m by auto
    moreover have "cmp (h ! ?r) (h ! k)" using cond True tr by blast
    ultimately show ?thesis using asym by blast
  next
    case False
    then have ml': "m = ?l" using m by auto
    show ?thesis
    proof
      assume a: "cmp (h ! k) (h ! m)"
      then have "\<not> cmp (h ! ?l) (h ! k)" using asym ml' by blast
      then have r: "?r < length h" "cmp (h ! ?r) (h ! k)" using cond by auto
      then have "cmp (h ! ?r) (h ! ?l)" using a ml' tr by blast
      then show False using False r by simp
    qed
  qed
  have sib: "\<not> cmp (h ! i) (h ! m)" if i: "i = ?l \<or> i = ?r" "i \<noteq> m" "i < length h" for i
  proof (cases "?r < length h \<and> cmp (h ! ?r) (h ! ?l)")
    case True
    then have "m = ?r" using m by auto
    then have "i = ?l" using i by auto
    then show ?thesis using True asym \<open>m = ?r\<close> by blast
  next
    case False
    then have "m = ?l" using m by auto
    then have "i = ?r" using i by auto
    then show ?thesis using False i \<open>m = ?l\<close> by simp
  qed
  have A: "\<not> cmp (?h ! i) (?h ! pq_parent i)"
    if i: "0 < i" "i < length h" "pq_parent i \<noteq> m" for i
  proof -
    have pi: "pq_parent i < i" using i parent_less by simp
    show ?thesis
    proof (cases "i = m")
      case True
      then show ?thesis using top pm km by (simp add: nth)
    next
      case nm: False
      show ?thesis
      proof (cases "i = k")
        case True
        then have "\<not> cmp (h ! m) (h ! pq_parent k)" using h2[of m] ml km pm i by simp
        then show ?thesis using True pi km i by (simp add: nth)
      next
        case nk: False
        show ?thesis
        proof (cases "pq_parent i = k")
          case True
          then have "i = ?l \<or> i = ?r" using parent_eq_iff[OF i(1)] by simp
          then have "\<not> cmp (h ! i) (h ! m)" using sib nm i by simp
          then show ?thesis using True nm nk km by (simp add: nth)
        next
          case False
          then show ?thesis using h1[OF i(1,2)] nm nk i by (simp add: nth)
        qed
      qed
    qed
  qed
  have B: "\<not> cmp (?h ! i) (?h ! pq_parent m)"
    if i: "0 < i" "i < length h" "pq_parent i = m" for i
  proof -
    have "m < i" using i parent_less[of i] by auto
    moreover have "\<not> cmp (h ! i) (h ! m)" using h1[OF i(1,2)] i(3) km by simp
    ultimately show ?thesis using km pm by (simp add: nth)
  qed
  show ?thesis unfolding down_inv_def using A B by simp
qed

lemma siftDown_loop_heap:
  "strict_order cmp \<Longrightarrow> down_inv cmp h k \<Longrightarrow> heap_property cmp (siftDown_loop cmp h k)"
proof (induction cmp h k rule: siftDown_loop.induct)
  case (1 cmp h node)
  let ?cond = "(pq_left node < length h \<and> pq_greater cmp h (pq_left node) node) \<or>
         (pq_right node < length h \<and> pq_greater cmp h (pq_right node) node)"
  let ?m = "if pq_right node < length h \<and> pq_greater cmp h (pq_right node) (pq_left node)
                   then pq_right node else pq_left node"
  show ?case
  proof (cases ?cond)
    case True
    have "down_inv cmp (pq_swap h node ?m) ?m"
      by (rule down_inv_step[OF "1.prems"]) (use True in \<open>simp_all add: pq_greater_def\<close>)
    then have "heap_property cmp (siftDown_loop cmp (pq_swap h node ?m) ?m)"
      using "1.IH"[OF True refl "1.prems"(1)] by simp
    then show ?thesis using True by (subst siftDown_loop.simps) (simp add: Let_def)
  next
    case False
    have "heap_property cmp h"
      unfolding heap_property_iff
    proof (intro allI impI)
      fix i assume i: "0 < i \<and> i < length h"
      show "\<not> cmp (h ! i) (h ! pq_parent i)"
      proof (cases "pq_parent i = node")
        case True
        then have "i = pq_left node \<or> i = pq_right node" using parent_eq_iff i by simp
        then show ?thesis using False i True by (auto simp: pq_greater_def)
      next
        case False
        then show ?thesis using "1.prems"(2) i by (simp add: down_inv_def)
      qed
    qed
    then show ?thesis using False by (subst siftDown_loop.simps) auto
  qed
qed

lemma pq_pop_eq: "pq_pop cmp h = (pq_peek h, siftDown_loop cmp (pq_swap_root h) 0)"
  by (simp add: pq_pop_def pq_swap_root_def siftDown_def Let_def)

lemma push1_heap:
  assumes "strict_weak_order cmp" "heap_property cmp h"
  shows "heap_property cmp (pq_push1 cmp v h)"
proof -
  have "up_inv cmp (h @ [v]) (length h)"
    unfolding up_inv_def
  proof (intro conjI allI impI)
    show "length h < length (h @ [v])" by simp
  next
    fix i assume i: "0 < i \<and> i < length (h @ [v]) \<and> i \<noteq> length h"
    then have "i < length h" by simp
    moreover from this have "pq_parent i < length h" using parent_less[of i] i by simp
    ultimately show "\<not> cmp ((h @ [v]) ! i) ((h @ [v]) ! pq_parent i)"
      using assms(2) i by (simp add: heap_property_iff nth_append)
  next
    fix i
    assume i: "0 < i \<and> i < length (h @ [v]) \<and> pq_parent i = length h \<and> 0 < length h"
    then have False using parent_less[of i] by simp
    then show "\<not> cmp ((h @ [v]) ! i) ((h @ [v]) ! pq_parent (length h))" ..
  qed
  then show ?thesis using siftUp_loop_heap[OF assms(1)] by (simp add: pq_push1_def siftUp_def)
qed

lemma pop_heap:
  assumes "strict_order cmp" "heap_property cmp h"
  shows "heap_property cmp (snd (pq_pop cmp h))"
proof -
  have "down_inv cmp (pq_swap_root h) 0"
    unfolding down_inv_def
  proof (intro conjI allI impI)
    fix i assume i: "0 < i \<and> i < length (pq_swap_root h) \<and> pq_parent i \<noteq> 0"
    then have il: "i < length h - 1" by (simp add: pq_swap_root_def split: if_splits)
    then have big: "length h - 1 > 0" "0 < length h" "length h - 1 < length h" by arith+
    have pi: "pq_parent i < i" using i parent_less by simp
    have eq: "pq_swap_root h = butlast (pq_swap h 0 (length h - 1))"
      using big by (simp add: pq_swap_root_def)
    have "pq_swap_root h ! i = h ! i"
      unfolding eq using il i big(2,3) by (simp add: nth_butlast swap_nth)
    moreover have "pq_swap_root h ! pq_parent i = h ! pq_parent i"
      unfolding eq using il i big(2,3) pi by (simp add: nth_butlast swap_nth)
    ultimately show "\<not> cmp (pq_swap_root h ! i) (pq_swap_root h ! pq_parent i)"
      using assms(2) il i by (simp add: heap_property_iff)
  qed simp
  then show ?thesis
    using siftDown_loop_heap[OF assms(1)] by (simp add: pq_pop_eq)
qed

lemma pop_root: "fst (pq_pop cmp h) = (case h of [] \<Rightarrow> None | x # xs \<Rightarrow> Some x)"
  by (cases h) (simp_all add: pq_pop_def pq_peek_def Let_def)

lemma apply_op_heap:
  assumes "strict_weak_order cmp" "heap_property cmp h"
  shows "heap_property cmp (apply_op cmp op h)"
proof (cases op)
  case (Push v)
  then show ?thesis using push1_heap[OF assms] by (simp add: pq_push_def)
next
  case Pop
  have "strict_order cmp" using assms(1) unfolding strict_weak_order_def by (rule conjunct1)
  then show ?thesis using pop_heap assms(2) Pop by simp
qed

lemma apply_ops_heap:
  assumes "strict_weak_order cmp"
  shows "heap_property cmp h \<Longrightarrow> heap_property cmp (apply_ops cmp ops h)"
  unfolding apply_ops_def
proof (induction ops arbitrary: h)
  case Nil
  then show ?case by simp
next
  case (Cons op ops)
  then show ?case using apply_op_heap[OF assms] by simp
qed

text \<open>C9, as amended. For a comparator that is a strict weak order, after any sequence of
  \<open>push\<close> and \<open>pop\<close> operations from the empty queue the array has the heap property;
  \<open>pop\<close> returns the root of the array (nothing when it is empty); \<open>push\<close> is the
  append followed by \<open>_siftUp\<close>, and \<open>pop\<close> leaves \<open>_siftDown\<close> of the array with the
  last element swapped to the root and the last place removed.\<close>

theorem heap_property_push_pop:
  assumes "strict_weak_order cmp"
  shows "heap_property cmp (apply_ops cmp ops []) \<and>
         fst (pq_pop cmp (apply_ops cmp ops [])) =
           (case apply_ops cmp ops [] of [] \<Rightarrow> None | x # xs \<Rightarrow> Some x) \<and>
         apply_op cmp (Push v) (apply_ops cmp ops []) = siftUp cmp (apply_ops cmp ops [] @ [v]) \<and>
         apply_op cmp Pop (apply_ops cmp ops []) =
           siftDown cmp (pq_swap_root (apply_ops cmp ops []))"
proof -
  have "heap_property cmp []" by (simp add: heap_property_def)
  then have "heap_property cmp (apply_ops cmp ops [])"
    by (rule apply_ops_heap[OF assms])
  moreover have "apply_op cmp Pop h = siftDown cmp (pq_swap_root h)" for h
    by (simp add: pq_pop_eq siftDown_def)
  moreover have "apply_op cmp (Push v) h = siftUp cmp (h @ [v])" for h
    by (simp add: pq_push_def pq_push1_def)
  ultimately show ?thesis using pop_root by blast
qed

theorem heap_property_push_pop_witness:
  "strict_weak_order ((<) :: nat \<Rightarrow> nat \<Rightarrow> bool) \<and>
   apply_ops (<) [Push 3, Push 1, Push 2, Pop, Push (0::nat)] [] = [0, 3, 2] \<and>
   heap_property (<) [0, 3, 2::nat] \<and>
   fst (pq_pop (<) [0, 3, 2::nat]) = Some 0"
proof -
  have s: "strict_weak_order ((<) :: nat \<Rightarrow> nat \<Rightarrow> bool)"
    by (auto simp: strict_weak_order_def strict_order_def)
  have e: "apply_ops (<) [Push 3, Push 1, Push 2, Pop, Push (0::nat)] [] = [0, 3, 2]"
    by code_simp
  have "heap_property (<) (apply_ops (<) [Push 3, Push 1, Push 2, Pop, Push (0::nat)] []) \<and>
        fst (pq_pop (<) (apply_ops (<) [Push 3, Push 1, Push 2, Pop, Push (0::nat)] [])) =
           (case apply_ops (<) [Push 3, Push 1, Push 2, Pop, Push (0::nat)] [] of
              [] \<Rightarrow> None | x # xs \<Rightarrow> Some x)"
    using heap_property_push_pop[OF s, of "[Push 3, Push 1, Push 2, Pop, Push 0]"] by blast
  then have "heap_property (<) [0, 3, 2::nat] \<and> fst (pq_pop (<) [0, 3, 2::nat]) = Some 0"
    unfolding e by (simp add: pop_root)
  then show ?thesis using s e by blast
qed

text \<open>C9, as stated, fails for a strict order that is not weak: with pairs compared by
  \<open>dominates\<close>, five pushes leave (1, 4) at index 3 below its parent (5, 5) at index 1,
  although (1, 4) comes strictly before (5, 5).\<close>

theorem heap_property_partial_order_counterexample:
  "strict_order dominates \<and>
   apply_ops dominates [Push (5, 5), Push (6, 2), Push (9, 9), Push (1, 4), Push (0, 0)] [] =
     [(0, 0), (5, 5), (9, 9), (1, 4), (6, 2)] \<and>
   \<not> heap_property dominates [(0, 0), (5, 5), (9, 9), (1, 4), (6, 2)]"
proof -
  have "strict_order dominates" by (auto simp: strict_order_def dominates_def)
  moreover have "apply_ops dominates
      [Push (5, 5), Push (6, 2), Push (9, 9), Push (1, 4), Push (0, 0)] [] =
     [(0, 0), (5, 5), (9, 9), (1, 4), (6, 2)]"
    by code_simp
  moreover have "\<not> heap_property dominates [(0, 0), (5, 5), (9, 9), (1, 4), (6, 2)]"
    by code_simp
  ultimately show ?thesis by blast
qed

lemma siftUp_loop_mset: "k < length h \<Longrightarrow> mset (siftUp_loop cmp h k) = mset h"
proof (induction cmp h k rule: siftUp_loop.induct)
  case (1 cmp h node)
  show ?case
  proof (cases "node > 0 \<and> pq_greater cmp h node (pq_parent node)")
    case True
    then have p: "pq_parent node < length h" using parent_less[of node] "1.prems" by simp
    then show ?thesis using "1.IH"[OF True] True "1.prems"
      by (subst siftUp_loop.simps) (simp add: swap_mset)
  next
    case False
    then show ?thesis by (subst siftUp_loop.simps) auto
  qed
qed

lemma siftDown_loop_mset: "mset (siftDown_loop cmp h k) = mset h"
proof (induction cmp h k rule: siftDown_loop.induct)
  case (1 cmp h node)
  let ?cond = "(pq_left node < length h \<and> pq_greater cmp h (pq_left node) node) \<or>
         (pq_right node < length h \<and> pq_greater cmp h (pq_right node) node)"
  let ?m = "if pq_right node < length h \<and> pq_greater cmp h (pq_right node) (pq_left node)
                   then pq_right node else pq_left node"
  show ?case
  proof (cases ?cond)
    case True
    have lr: "pq_left node < pq_right node" "node < pq_left node"
      by (simp_all add: pq_left_def pq_right_def)
    have ml: "?m < length h" using True lr by auto
    have nl: "node < length h" using True lr by auto
    have "mset (siftDown_loop cmp (pq_swap h node ?m) ?m) = mset (pq_swap h node ?m)"
      using "1.IH"[OF True refl] by simp
    then show ?thesis using True swap_mset[OF nl ml]
      by (subst siftDown_loop.simps) (simp add: Let_def)
  next
    case False
    then show ?thesis by (subst siftDown_loop.simps) auto
  qed
qed

lemma push_mset: "mset (pq_push cmp h [v]) = mset h + {#v#}"
  by (simp add: pq_push_def pq_push1_def siftUp_def siftUp_loop_mset)

lemma butlast_mset: "xs \<noteq> [] \<Longrightarrow> mset (butlast xs) = mset xs - {#last xs#}"
  by (induction xs) auto

lemma swap_root_mset:
  assumes "h \<noteq> []"
  shows "mset (pq_swap_root h) = mset h - {#hd h#}"
proof (cases "length h - 1 > 0")
  case True
  have len: "0 < length h" "length h - 1 < length h" using assms by simp_all
  let ?s = "pq_swap h 0 (length h - 1)"
  have ne: "?s \<noteq> []" using assms by (simp add: pq_swap_def)
  have "last ?s = ?s ! (length h - 1)" using ne by (simp add: last_conv_nth)
  also have "\<dots> = h ! 0" using len True by (simp add: swap_nth)
  finally have "last ?s = hd h" using assms by (simp add: hd_conv_nth)
  moreover have "mset ?s = mset h" using len by (simp add: swap_mset)
  moreover have "pq_swap_root h = butlast ?s" using True by (simp add: pq_swap_root_def)
  ultimately show ?thesis using butlast_mset[OF ne] by simp
next
  case False
  then have "length h = 1" using assms by (cases h) simp_all
  then obtain x where "h = [x]" by (cases h) simp_all
  then show ?thesis by (simp add: pq_swap_root_def)
qed

lemma pop_nonempty:
  assumes "h \<noteq> []"
  shows "fst (pq_pop cmp h) = Some (hd h)" "mset (snd (pq_pop cmp h)) = mset h - {#hd h#}"
proof -
  show "fst (pq_pop cmp h) = Some (hd h)"
    using assms by (cases h) (simp_all add: pop_root)
  show "mset (snd (pq_pop cmp h)) = mset h - {#hd h#}"
    using swap_root_mset[OF assms] by (simp add: pq_pop_eq siftDown_loop_mset)
qed

section \<open>One call of the closure\<close>

lemma same_types_refl [simp]: "same_types m m"
  by (simp add: same_types_def)

lemma same_types_trans: "same_types m m' \<Longrightarrow> same_types m' m'' \<Longrightarrow> same_types m m''"
  by (simp add: same_types_def)

lemma same_types_lengths:
  assumes "same_types m m'"
  shows "length m' = length m" "map length m' = map length m"
proof -
  have e: "map (map type) m' = map (map type) m" using assms by (simp add: same_types_def)
  then show "length m' = length m" using length_map by metis
  have "map length (map (map type) m') = map length (map (map type) m)" using e by simp
  then show "map length m' = map length m" by (simp add: comp_def)
qed

lemma same_types_cell_at:
  assumes "same_types m m'"
  shows "map_option type (cell_at m' s) = map_option type (cell_at m s)"
proof (cases s)
  case (Pair r c)
  have l: "length m' = length m" and ls: "map length m' = map length m"
    using same_types_lengths[OF assms] by simp_all
  have e: "map (map type) m' = map (map type) m" using assms by (simp add: same_types_def)
  show ?thesis
  proof (cases "0 \<le> r \<and> r < int (length m)")
    case True
    then have i: "nat r < length m" by linarith
    have rl: "length (m' ! nat r) = length (m ! nat r)"
      using ls i l by (metis nth_map)
    show ?thesis
    proof (cases "0 \<le> c \<and> c < int (length (m ! nat r))")
      case c: True
      then have j: "nat c < length (m ! nat r)" by linarith
      have "map (map type) m' ! nat r ! nat c = map (map type) m ! nat r ! nat c"
        using e by simp
      then have "type (m' ! nat r ! nat c) = type (m ! nat r ! nat c)"
        using i j l rl by simp
      then show ?thesis using True c Pair l rl by (simp add: cell_at_def)
    next
      case False
      then show ?thesis using True Pair l rl by (auto simp: cell_at_def)
    qed
  next
    case False
    then show ?thesis using Pair l by (auto simp: cell_at_def)
  qed
qed

lemma same_types_passable: "same_types m m' \<Longrightarrow> passable m' s = passable m s"
  using same_types_cell_at[of m m' s]
  by (cases "cell_at m s"; cases "cell_at m' s") (auto simp: passable_def)

lemma same_types_is_path: "same_types m m' \<Longrightarrow> is_path m' p = is_path m p"
  by (induction m p rule: is_path.induct) (simp_all add: same_types_passable)

lemma same_types_dom: "same_types m m' \<Longrightarrow> cell_at m' s = None \<longleftrightarrow> cell_at m s = None"
  using same_types_cell_at[of m m' s] by (metis option.map_disc_iff)

lemma update_cell_eq:
  assumes "cell_at m s = Some c"
  shows "update_cell m s f =
    Inr (m[nat (fst s) := (m ! nat (fst s))[nat (snd s) := f c]])"
  using assms by (cases s) (simp add: update_cell_def)

lemma cell_at_Some_iff:
  "cell_at m (r, c) = Some x \<longleftrightarrow>
   0 \<le> r \<and> nat r < length m \<and> 0 \<le> c \<and> nat c < length (m ! nat r) \<and> x = m ! nat r ! nat c"
  by (auto simp: cell_at_def)

lemma cell_at_update:
  assumes "cell_at m s = Some c" "update_cell m s f = Inr m'"
  shows "cell_at m' t = (if t = s then Some (f c) else cell_at m t)"
proof (cases s, cases t)
  fix r k r' k' assume s: "s = (r, k)" and t: "t = (r', k')"
  have b: "0 \<le> r" "nat r < length m" "0 \<le> k" "nat k < length (m ! nat r)"
    using assms(1) s by (simp_all add: cell_at_Some_iff)
  have m': "m' = m[nat r := (m ! nat r)[nat k := f c]]"
    using assms update_cell_eq[OF assms(1), of f] s by simp
  show ?thesis
  proof (cases "0 \<le> r' \<and> nat r' < length m")
    case True
    show ?thesis
    proof (cases "r' = r")
      case True
      then show ?thesis using b s t m' assms(1)
        by (cases "k' = k") (auto simp: cell_at_def nth_list_update)
    next
      case False
      then have "nat r' \<noteq> nat r" using True b by linarith
      then show ?thesis using True b s t m' False
        by (auto simp: cell_at_def nth_list_update)
    qed
  next
    case False
    then show ?thesis using b s t m' by (auto simp: cell_at_def)
  qed
qed

lemma update_cell_same_types:
  assumes "cell_at m s = Some c" "update_cell m s f = Inr m'" "type (f c) = type c"
  shows "same_types m m'"
proof (cases s)
  case (Pair r k)
  have b: "0 \<le> r" "nat r < length m" "0 \<le> k" "nat k < length (m ! nat r)"
    "c = m ! nat r ! nat k"
    using assms(1) Pair by (simp_all add: cell_at_Some_iff)
  have m': "m' = m[nat r := (m ! nat r)[nat k := f c]]"
    using assms update_cell_eq[OF assms(1), of f] Pair by simp
  have "(map type (m ! nat r))[nat k := type (f c)] = map type (m ! nat r)"
    using b assms(3) by (simp add: list_update_same_conv)
  then have row: "map type ((m ! nat r)[nat k := f c]) = map type (m ! nat r)"
    by (simp add: map_update)
  have "(map (map type) m)[nat r := map type (m ! nat r)] = map (map type) m"
    using b by (simp add: list_update_same_conv)
  then have "map (map type) m' = map (map type) m"
    unfolding m' using row by (simp add: map_update)
  then show ?thesis by (simp add: same_types_def)
qed

lemma setCellState_ok:
  assumes "cell_at m s = Some c"
  shows "\<exists>m'. setCellState m s cs = Inr m' \<and> same_types m m' \<and>
     (\<forall>t. cell_at m' t = (if t = s then Some (c\<lparr>cellState := cs\<rparr>) else cell_at m t))"
proof -
  obtain m' where m': "update_cell m s (\<lambda>cell. cell\<lparr>cellState := cs\<rparr>) = Inr m'"
    using update_cell_eq[OF assms] by blast
  show ?thesis
    using m' cell_at_update[OF assms m'] update_cell_same_types[OF assms m']
    by (simp add: setCellState_def)
qed

lemma setCellLabel_ok:
  assumes "cell_at m s = Some c"
  shows "\<exists>m'. setCellLabel m s l = Inr m' \<and> same_types m m' \<and>
     (\<forall>t. cell_at m' t = (if t = s then Some (c\<lparr>label := Some l\<rparr>) else cell_at m t))"
proof -
  obtain m' where m': "update_cell m s (\<lambda>cell. cell\<lparr>label := Some l\<rparr>) = Inr m'"
    using update_cell_eq[OF assms] by blast
  show ?thesis
    using m' cell_at_update[OF assms m'] update_cell_same_types[OF assms m']
    by (simp add: setCellLabel_def)
qed

lemma State_equals_iff [simp]: "State_equals a b \<longleftrightarrow> a = b"
  by (simp add: State_equals_def prod_eq_iff)

lemma containers_state_iff: "containers_state fr s \<longleftrightarrow> s \<in> state ` set (nodes_of fr)"
  by (cases fr) (auto simp: pq_find_def find_None_iff)

lemma empty_iff: "empty fr \<longleftrightarrow> nodes_of fr = []"
  by (cases fr) (simp_all add: pq_isEmpty_def)

lemma add_mset_nodes: "mset (nodes_of (add fr n)) = mset (nodes_of fr) + {#n#}"
  by (cases fr) (simp_all add: push_mset)

lemma add_set_nodes: "set (nodes_of (add fr n)) = insert n (set (nodes_of fr))"
  using add_mset_nodes[of fr n] by (metis set_mset_mset set_mset_add_mset_insert union_mset_add_mset_right add.right_neutral)

lemma remove_nonempty:
  assumes "nodes_of fr \<noteq> []"
  shows "\<exists>n fr'. remove fr = Inr (Some n, fr') \<and> mset (nodes_of fr) = mset (nodes_of fr') + {#n#}"
proof (cases fr)
  case (StackFrontier q)
  then have "q \<noteq> []" using assms by simp
  then have "mset q = mset (butlast q) + {#last q#}"
    by (metis append_butlast_last_id mset.simps(1) mset.simps(2) mset_append)
  then show ?thesis using StackFrontier \<open>q \<noteq> []\<close> by simp
next
  case (QueueFrontier q)
  then have "q \<noteq> []" using assms by simp
  then have "mset q = mset (tl q) + {#hd q#}" by (cases q) simp_all
  then show ?thesis using QueueFrontier \<open>q \<noteq> []\<close> by simp
next
  case (GreedBestFrontier q)
  then have q: "q \<noteq> []" using assms by simp
  have "hd q \<in># mset q" using q by simp
  then have "mset q = (mset q - {#hd q#}) + {#hd q#}" by simp
  then show ?thesis using GreedBestFrontier pop_nonempty[OF q, of greedy_comparator]
    by (cases "pq_pop greedy_comparator q") simp
next
  case (AStarFrontier q)
  then have q: "q \<noteq> []" using assms by simp
  have "hd q \<in># mset q" using q by simp
  then have "mset q = (mset q - {#hd q#}) + {#hd q#}" by simp
  then show ?thesis using AStarFrontier pop_nonempty[OF q, of astar_comparator]
    by (cases "pq_pop astar_comparator q") simp
qed

lemma state_at_None: "state_at m s = None \<longleftrightarrow> cell_at m s = None"
  by (simp add: state_at_def)

lemma getCellState_eq:
  "getCellState m s = (case state_at m s of None \<Rightarrow> Inl TypeError | Some cs \<Rightarrow> Inr cs)"
  by (cases "cell_at m s") (simp_all add: getCellState_def state_at_def)

lemma visit_skip:
  assumes "cell_at m s \<noteq> None" "\<not> addable m fr s"
  shows "visit node g (a, s) (m, fr) = Inr (m, fr)"
  using assms by (auto simp: visit_def addable_def getCellState_eq state_at_None split: option.splits)

lemma visit_add:
  assumes "cell_at m s \<noteq> None" "addable m fr s"
  shows "\<exists>m'. visit node g (a, s) (m, fr) = Inr (m', add fr (child_of node g (a, s))) \<and>
     same_types m m' \<and>
     (\<forall>t. state_at m' t = (if t = s then Some Frontier else state_at m t))"
proof -
  obtain c where c: "cell_at m s = Some c" using assms(1) by blast
  let ?child = "child_of node g (a, s)"
  let ?l = "getLabel (add fr ?child) ?child"
  obtain m1 where m1: "setCellLabel m s ?l = Inr m1" "same_types m m1"
    "\<And>t. cell_at m1 t = (if t = s then Some (c\<lparr>label := Some ?l\<rparr>) else cell_at m t)"
    using setCellLabel_ok[OF c, of ?l] by blast
  have c1: "cell_at m1 s = Some (c\<lparr>label := Some ?l\<rparr>)" using m1(3) by simp
  obtain m2 where m2: "setCellState m1 s Frontier = Inr m2" "same_types m1 m2"
    "\<And>t. cell_at m2 t = (if t = s then Some (c\<lparr>label := Some ?l, cellState := Frontier\<rparr>)
        else cell_at m1 t)"
    using setCellState_ok[OF c1, of Frontier] by blast
  have st: "\<forall>t. state_at m2 t = (if t = s then Some Frontier else state_at m t)"
    using m1(3) m2(3) by (simp add: state_at_def)
  have cs: "state ?child = s" by (simp add: child_of_def)
  have ne: "state_at m s \<noteq> Some Explored" "\<not> containers_state fr s"
    using assms(2) by (simp_all add: addable_def)
  obtain cs0 where cs0: "state_at m s = Some cs0" "cs0 \<noteq> Explored"
    using c ne by (auto simp: state_at_def)
  have "visit node g (a, s) (m, fr) = Inr (m2, add fr ?child)"
    using ne cs0 m1(1) m2(1) cs
    by (simp add: visit_def getCellState_eq child_of_def Let_def)
  then show ?thesis using same_types_trans[OF m1(2) m2(2)] st by blast
qed

lemma containers_state_add:
  "containers_state (add fr n) t \<longleftrightarrow> t = state n \<or> containers_state fr t"
  by (auto simp: containers_state_iff add_set_nodes)

lemma expand_result:
  assumes "distinct (map snd ns)" "\<forall>x\<in>set ns. cell_at m (snd x) \<noteq> None"
  shows "\<exists>m'. expand node g ns (m, fr) =
        Inr (m', add_children node g (filter (\<lambda>x. addable m fr (snd x)) ns) fr) \<and>
     same_types m m' \<and>
     (\<forall>t. state_at m' t =
        (if t \<in> snd ` set (filter (\<lambda>x. addable m fr (snd x)) ns) then Some Frontier
         else state_at m t))"
  using assms
proof (induction ns arbitrary: m fr)
  case Nil
  then show ?case by (simp add: add_children_def)
next
  case (Cons x ns)
  obtain a s where x: "x = (a, s)" by (cases x)
  have cs: "cell_at m s \<noteq> None" using Cons.prems x by simp
  have d: "distinct (map snd ns)" "s \<notin> snd ` set ns" using Cons.prems x by auto
  show ?case
  proof (cases "addable m fr s")
    case False
    have v: "visit node g x (m, fr) = Inr (m, fr)" using visit_skip[OF cs False] x by simp
    have "\<forall>x\<in>set ns. cell_at m (snd x) \<noteq> None" using Cons.prems by simp
    from Cons.IH[OF d(1) this, of fr] show ?thesis using v False x by simp
  next
    case True
    let ?fr = "add fr (child_of node g x)"
    obtain m1 where m1: "visit node g x (m, fr) = Inr (m1, ?fr)" "same_types m m1"
      "\<And>t. state_at m1 t = (if t = s then Some Frontier else state_at m t)"
      using visit_add[OF cs True, of node g a] x by blast
    have c1: "\<forall>x\<in>set ns. cell_at m1 (snd x) \<noteq> None"
      using Cons.prems same_types_dom[OF m1(2)] by simp
    have same: "addable m1 ?fr (snd y) = addable m fr (snd y)" if "y \<in> set ns" for y
    proof -
      have "snd y \<noteq> s" using that d(2) by auto
      then show ?thesis using m1(3) x
        by (simp add: addable_def containers_state_add child_of_def)
    qed
    then have f: "filter (\<lambda>x. addable m1 ?fr (snd x)) ns = filter (\<lambda>x. addable m fr (snd x)) ns"
      by (simp cong: filter_cong)
    obtain m' where m': "expand node g ns (m1, ?fr) =
        Inr (m', add_children node g (filter (\<lambda>x. addable m fr (snd x)) ns) ?fr)"
      "same_types m1 m'"
      "\<And>t. state_at m' t =
        (if t \<in> snd ` set (filter (\<lambda>x. addable m fr (snd x)) ns) then Some Frontier
         else state_at m1 t)"
      using Cons.IH[OF d(1) c1, of ?fr] unfolding f by blast
    have "expand node g (x # ns) (m, fr) =
       Inr (m', add_children node g (filter (\<lambda>x. addable m fr (snd x)) (x # ns)) fr)"
      using m1(1) m'(1) True x by (simp add: add_children_def)
    moreover have "same_types m m'" using same_types_trans[OF m1(2) m'(2)] .
    moreover have "\<forall>t. state_at m' t =
        (if t \<in> snd ` set (filter (\<lambda>x. addable m fr (snd x)) (x # ns)) then Some Frontier
         else state_at m t)"
      using m'(3) m1(3) True x by auto
    ultimately show ?thesis by blast
  qed
qed

lemma add_children_mset:
  "mset (nodes_of (add_children node g xs fr)) =
   mset (nodes_of fr) + mset (map (child_of node g) xs)"
  unfolding add_children_def
  by (induction xs arbitrary: fr) (simp_all add: add_mset_nodes)

lemma add_children_queue:
  "add_children node g xs (QueueFrontier q) = QueueFrontier (q @ map (child_of node g) xs)"
  unfolding add_children_def
  by (induction xs arbitrary: q) simp_all

lemma path_of_nonempty [simp]: "path_of n \<noteq> []"
  by (cases n) simp

lemma last_path_of [simp]: "last (path_of n) = state n"
  by (cases n) simp

lemma mark_path_result:
  assumes "\<forall>s\<in>set (path_of n). cell_at m s \<noteq> None"
  shows "\<exists>m'. mark_path m n = Inr m' \<and> same_types m m' \<and>
     (\<forall>t. state_at m' t = (if t \<in> set (path_of n) then Some SolutionPath else state_at m t))"
  using assms
proof (induction m n rule: mark_path.induct)
  case (1 m s p a h g)
  obtain c where c: "cell_at m s = Some c" using "1.prems" by auto
  obtain m1 where m1: "setCellState m s SolutionPath = Inr m1" "same_types m m1"
    "\<And>t. cell_at m1 t = (if t = s then Some (c\<lparr>cellState := SolutionPath\<rparr>) else cell_at m t)"
    using setCellState_ok[OF c, of SolutionPath] by blast
  have st1: "\<And>t. state_at m1 t = (if t = s then Some SolutionPath else state_at m t)"
    using m1(3) by (simp add: state_at_def)
  show ?case
  proof (cases p)
    case None
    then show ?thesis using m1 st1 by auto
  next
    case (Some n)
    have "\<forall>s\<in>set (path_of n). cell_at m1 s \<noteq> None"
      using "1.prems" Some same_types_dom[OF m1(2)] by simp
    from "1.IH"[OF m1(1) Some this]
    obtain m' where m': "mark_path m1 n = Inr m'" "same_types m1 m'"
      "\<And>t. state_at m' t = (if t \<in> set (path_of n) then Some SolutionPath else state_at m1 t)"
      by blast
    have "mark_path m (Node s p a h g) = Inr m'" using m1(1) m'(1) Some by simp
    moreover have "same_types m m'" using same_types_trans[OF m1(2) m'(2)] .
    moreover have "\<forall>t. state_at m' t =
       (if t \<in> set (path_of (Node s p a h g)) then Some SolutionPath else state_at m t)"
      using m'(3) st1 Some by auto
    ultimately show ?thesis by blast
  qed
qed

lemma neighbors_open:
  assumes "dims_ok this"
  shows "neighbors this s = Inr (filter (\<lambda>x. open_cell this (snd x)) (candidates s))"
proof -
  have "filter_err (candidate_ok this) (candidates s) =
        Inr (filter (\<lambda>x. open_cell this (snd x)) (candidates s))"
    by (rule filter_err_total) (auto simp: candidate_ok_dims[OF assms])
  then show ?thesis by (simp add: neighbors_def)
qed

lemma cell_at_out_of_bounds:
  assumes "dims_ok this" "\<not> (0 \<le> r \<and> r < height this \<and> 0 \<le> c \<and> c < width this)"
  shows "cell_at (maze this) (r, c) = None"
proof (cases "0 \<le> r \<and> r < int (length (maze this))")
  case True
  then have "nat r < length (maze this)" by linarith
  then have "maze this ! nat r \<in> set (maze this)" by simp
  then have "int (length (maze this ! nat r)) = width this"
    using assms(1) by (simp add: dims_ok_def list_all_iff)
  then show ?thesis using assms True by (auto simp: cell_at_def dims_ok_def)
next
  case False
  then show ?thesis by (auto simp: cell_at_def)
qed

lemma open_cell_passable:
  assumes "dims_ok this"
  shows "open_cell this s = passable (maze this) s"
proof (cases s)
  case (Pair r c)
  show ?thesis
  proof (cases "0 \<le> r \<and> r < height this \<and> 0 \<le> c \<and> c < width this")
    case True
    then show ?thesis using cell_at_in_bounds[OF assms, of r c] Pair
      by (simp add: open_cell_def passable_def)
  next
    case False
    then show ?thesis using cell_at_out_of_bounds[OF assms False] Pair
      by (auto simp: open_cell_def passable_def)
  qed
qed

lemma neighbors_nbrs: "dims_ok this \<Longrightarrow> neighbors this s = Inr (nbrs (maze this) s)"
  by (simp add: neighbors_open nbrs_def open_cell_passable)

lemma candidates_distinct: "distinct (map snd (candidates s))"
  by (cases s) (simp add: candidates_def)

lemma adjacent_iff: "adjacent (r, c) (r', c') \<longleftrightarrow>
     (r' = r - 1 \<and> c' = c) \<or> (r' = r + 1 \<and> c' = c) \<or>
     (r' = r \<and> c' = c - 1) \<or> (r' = r \<and> c' = c + 1)"
  unfolding adjacent_def fst_conv snd_conv by presburger

lemma candidates_adjacent: "snd ` set (candidates s) = {t. adjacent s t}"
proof (cases s)
  case (Pair r c)
  show ?thesis unfolding Pair
    by (auto simp: candidates_def adjacent_iff)
qed

lemma nbrs_distinct: "distinct (map snd (nbrs m s))"
  unfolding nbrs_def using candidates_distinct[of s] by (simp add: distinct_map_filter)

lemma nbrs_set: "snd ` set (nbrs m s) = {t. adjacent s t \<and> passable m t}"
proof -
  have "snd ` set (filter (\<lambda>x. passable m (snd x)) xs) = {t \<in> snd ` set xs. passable m t}"
    for xs :: "(Action \<times> State) list"
    by force
  then show ?thesis unfolding nbrs_def using candidates_adjacent[of s] by simp
qed

lemma passable_cell: "passable m s \<Longrightarrow> cell_at m s \<noteq> None"
  by (auto simp: passable_def split: option.splits)

lemma is_path_passable: "is_path m p \<Longrightarrow> s \<in> set p \<Longrightarrow> passable m s"
  by (induction m p rule: is_path.induct) auto

lemma same_types_dims: "same_types (maze this) m' \<Longrightarrow> dims_ok this \<Longrightarrow> dims_ok (this\<lparr>maze := m'\<rparr>)"
proof -
  assume a: "same_types (maze this) m'" "dims_ok this"
  have l: "length m' = length (maze this)" "map length m' = map length (maze this)"
    using same_types_lengths[OF a(1)] by simp_all
  have "list_all (\<lambda>row. int (length row) = width this) m' \<longleftrightarrow>
        list_all (\<lambda>n. int n = width this) (map length m')"
    by (simp add: list_all_iff)
  also have "\<dots> \<longleftrightarrow> list_all (\<lambda>row. int (length row) = width this) (maze this)"
    unfolding l(2) by (simp add: list_all_iff)
  finally show ?thesis using a(2) l(1) by (simp add: dims_ok_def)
qed

lemma solve_next_cases:
  assumes "inv_safe (this, fr)"
  obtains
    (Empty) "nodes_of fr = []"
      "solve_next (this, fr) = Inr (this\<lparr>solutionType := NoSolution\<rparr>, fr)"
  | (Found) node fr1 m' where
      "remove fr = Inr (Some node, fr1)"
      "mset (nodes_of fr) = mset (nodes_of fr1) + {#node#}"
      "state node = goal this"
      "solve_next (this, fr) =
         Inr (this\<lparr>numExplored := numExplored this + 1, maze := m',
                   solutionType := FoundSolution\<rparr>, fr1)"
      "same_types (maze this) m'"
      "\<And>t. state_at m' t =
         (if t \<in> set (path_of node) then Some SolutionPath else state_at (maze this) t)"
  | (Expand) node fr1 m1 m2 added where
      "remove fr = Inr (Some node, fr1)"
      "mset (nodes_of fr) = mset (nodes_of fr1) + {#node#}"
      "state node \<noteq> goal this"
      "\<And>t. state_at m1 t = (if t = state node then Some Explored else state_at (maze this) t)"
      "added = filter (\<lambda>x. addable m1 fr1 (snd x)) (nbrs (maze this) (state node))"
      "solve_next (this, fr) =
         Inr (this\<lparr>numExplored := numExplored this + 1, maze := m2\<rparr>,
              add_children node (goal this) added fr1)"
      "same_types (maze this) m2"
      "\<And>t. state_at m2 t = (if t \<in> snd ` set added then Some Frontier else state_at m1 t)"
proof (cases "nodes_of fr = []")
  case True
  then show ?thesis using Empty by (simp add: solve_next_def empty_iff)
next
  case False
  obtain node fr1 where r: "remove fr = Inr (Some node, fr1)"
    "mset (nodes_of fr) = mset (nodes_of fr1) + {#node#}"
    using remove_nonempty[OF False] by blast
  have "node \<in># mset (nodes_of fr)" using r(2) by simp
  then have mem: "node \<in> set (nodes_of fr)" by simp
  have dims: "dims_ok this" and ok: "node_ok (maze this) (start this) node"
    using assms mem by (simp_all add: inv_safe_def)
  have cells: "\<forall>s\<in>set (path_of node). cell_at (maze this) s \<noteq> None"
    using ok is_path_passable passable_cell unfolding node_ok_def by blast
  have ne: "\<not> empty fr" using False by (simp add: empty_iff)
  show ?thesis
  proof (cases "state node = goal this")
    case True
    obtain m' where m': "mark_path (maze this) node = Inr m'" "same_types (maze this) m'"
      "\<And>t. state_at m' t =
         (if t \<in> set (path_of node) then Some SolutionPath else state_at (maze this) t)"
      using mark_path_result[OF cells] by blast
    have "solve_next (this, fr) =
         Inr (this\<lparr>numExplored := numExplored this + 1, maze := m',
                   solutionType := FoundSolution\<rparr>, fr1)"
      using ne r(1) True m'(1) by (simp add: solve_next_def Let_def)
    then show ?thesis using Found r True m' by blast
  next
    case ng: False
    have "state node \<in> set (path_of node)" using last_in_set[of "path_of node"] by simp
    then obtain c where c: "cell_at (maze this) (state node) = Some c" using cells by blast
    obtain m1 where m1: "setCellState (maze this) (state node) Explored = Inr m1"
      "same_types (maze this) m1"
      "\<And>t. cell_at m1 t = (if t = state node then Some (c\<lparr>cellState := Explored\<rparr>)
          else cell_at (maze this) t)"
      using setCellState_ok[OF c, of Explored] by blast
    have st1: "\<And>t. state_at m1 t =
        (if t = state node then Some Explored else state_at (maze this) t)"
      using m1(3) by (simp add: state_at_def)
    let ?this1 = "this\<lparr>numExplored := numExplored this + 1\<rparr>"
    have d1: "dims_ok (?this1\<lparr>maze := m1\<rparr>)"
      using same_types_dims[OF m1(2) dims] by (simp add: dims_ok_def)
    have nb: "neighbors (?this1\<lparr>maze := m1\<rparr>) (state node) = Inr (nbrs m1 (state node))"
      using neighbors_nbrs[OF d1] by simp
    have nbeq: "nbrs m1 (state node) = nbrs (maze this) (state node)"
      by (simp add: nbrs_def same_types_passable[OF m1(2)])
    let ?ns = "nbrs (maze this) (state node)"
    have "\<forall>x\<in>set ?ns. cell_at m1 (snd x) \<noteq> None"
      using same_types_dom[OF m1(2)] passable_cell by (auto simp: nbrs_def)
    from expand_result[OF nbrs_distinct this, of node "goal this" fr1]
    obtain m2 where m2: "expand node (goal this) ?ns (m1, fr1) =
        Inr (m2, add_children node (goal this) (filter (\<lambda>x. addable m1 fr1 (snd x)) ?ns) fr1)"
      "same_types m1 m2"
      "\<And>t. state_at m2 t =
        (if t \<in> snd ` set (filter (\<lambda>x. addable m1 fr1 (snd x)) ?ns) then Some Frontier
         else state_at m1 t)"
      by blast
    have "solve_next (this, fr) =
         Inr (this\<lparr>numExplored := numExplored this + 1, maze := m2\<rparr>,
              add_children node (goal this) (filter (\<lambda>x. addable m1 fr1 (snd x)) ?ns) fr1)"
      using ne r(1) ng m1(1) nb nbeq m2(1) by (simp add: solve_next_def Let_def)
    then show ?thesis
      using Expand[OF r ng st1 refl _ same_types_trans[OF m1(2) m2(2)]] m2(3) by blast
  qed
qed

lemma marked_iff: "s \<in> marked cs m \<longleftrightarrow> state_at m s = Some cs"
  by (auto simp: marked_def state_at_def)

lemma node_ok_same_types: "same_types m m' \<Longrightarrow> node_ok m' s0 n = node_ok m s0 n"
  by (simp add: node_ok_def same_types_is_path)

lemma is_path_snoc:
  "is_path m p \<Longrightarrow> adjacent (last p) t \<Longrightarrow> passable m t \<Longrightarrow> is_path m (p @ [t])"
  by (induction m p rule: is_path.induct) auto

lemma path_of_child: "path_of (child_of node g (a, t)) = path_of node @ [t]"
  by (simp add: child_of_def)

lemma state_child [simp]: "state (child_of node g x) = snd x"
  by (cases x) (simp add: child_of_def)

lemma pathCost_child [simp]: "pathCost (child_of node g x) = pathCost node + 1"
  by (cases x) (simp add: child_of_def)

lemma node_ok_child:
  assumes "node_ok m s0 node" "x \<in> set (nbrs m (state node))"
  shows "node_ok m s0 (child_of node g x)"
proof -
  obtain a t where x: "x = (a, t)" by (cases x)
  have "t \<in> snd ` set (nbrs m (state node))" using assms(2) x by force
  then have t: "adjacent (state node) t" "passable m t" using nbrs_set[of m "state node"] by auto
  have "is_path m (path_of node @ [t])"
    using is_path_snoc[of m "path_of node" t] assms(1) t by (simp add: node_ok_def)
  then show ?thesis using assms(1) x by (simp add: node_ok_def path_of_child)
qed

lemma distinct_states_mset:
  assumes "mset xs = mset ys" 
  shows "distinct (map state xs) = distinct (map state ys)"
proof -
  have "mset (map state xs) = mset (map state ys)" using assms by (metis mset_map)
  then show ?thesis by (rule mset_eq_imp_distinct_iff)
qed

lemma set_of_mset_eq: "mset xs = mset ys \<Longrightarrow> set xs = set ys"
  by (rule mset_eq_setD)

lemma step_cases:
  assumes inv: "run_inv (this, fr)"
  obtains
    (Empty) "nodes_of fr = []"
      "solve_next (this, fr) = Inr (this\<lparr>solutionType := NoSolution\<rparr>, fr)"
  | (Found) this' fr' node where
      "solve_next (this, fr) = Inr (this', fr')"
      "run_inv (this', fr')" "frame (this, fr) (this', fr')"
      "solutionType this' = FoundSolution"
      "numExplored this' = numExplored this + 1"
      "remove fr = Inr (Some node, fr')"
      "mset (nodes_of fr) = mset (nodes_of fr') + {#node#}"
      "state node = goal this"
      "marked Explored (maze this') \<subseteq> marked Explored (maze this)"
      "set (path_of node) \<subseteq> marked SolutionPath (maze this')"
  | (Expand) this' fr' node fr1 added where
      "solve_next (this, fr) = Inr (this', fr')"
      "run_inv (this', fr')" "frame (this, fr) (this', fr')"
      "solutionType this' = solutionType this"
      "numExplored this' = numExplored this + 1"
      "remove fr = Inr (Some node, fr1)"
      "mset (nodes_of fr) = mset (nodes_of fr1) + {#node#}"
      "state node \<noteq> goal this"
      "state node \<notin> marked Explored (maze this)"
      "cell_at (maze this) (state node) \<noteq> None"
      "marked Explored (maze this') = insert (state node) (marked Explored (maze this))"
      "added = filter (\<lambda>x. snd x \<notin> frontier_states fr1 \<and> snd x \<notin> marked Explored (maze this))
                 (nbrs (maze this) (state node))"
      "fr' = add_children node (goal this) added fr1"
proof -
  have safe: "inv_safe (this, fr)" and dist: "distinct (map state (nodes_of fr))"
    and disj: "frontier_states fr \<inter> marked Explored (maze this) = {}"
    using inv by (simp_all add: run_inv_def)
  have dims: "dims_ok this" and oks: "\<And>n. n \<in> set (nodes_of fr) \<Longrightarrow> node_ok (maze this) (start this) n"
    using safe by (simp_all add: inv_safe_def)
  from safe show ?thesis
  proof (cases rule: solve_next_cases)
    case Empty
    then show ?thesis using that(1) by blast
  next
    case (Found node fr1 m')
    let ?this' = "this\<lparr>numExplored := numExplored this + 1, maze := m',
                   solutionType := FoundSolution\<rparr>"
    have sub: "set (nodes_of fr1) \<subseteq> set (nodes_of fr)"
      using Found(2) by (metis mset_subset_eqD mset_subset_eq_add_left set_mset_mset subsetI)
    have d': "distinct (map state (node # nodes_of fr1))"
      using distinct_states_mset[of "nodes_of fr" "node # nodes_of fr1"] Found(2) dist by simp
    have ex: "marked Explored m' \<subseteq> marked Explored (maze this)"
    proof
      fix t assume "t \<in> marked Explored m'"
      then show "t \<in> marked Explored (maze this)"
        using Found(6)[of t] by (simp add: marked_iff split: if_splits)
    qed
    have "dims_ok ?this'" using same_types_dims[OF Found(5) dims] by (simp add: dims_ok_def)
    moreover have "\<forall>n\<in>set (nodes_of fr1). node_ok m' (start this) n"
      using oks sub node_ok_same_types[OF Found(5)] by auto
    ultimately have s': "inv_safe (?this', fr1)" by (simp add: inv_safe_def)
    have "frontier_states fr1 \<inter> marked Explored m' = {}"
      using disj sub ex by (auto simp: frontier_states_def)
    then have r': "run_inv (?this', fr1)" using s' d' by (simp add: run_inv_def)
    have f': "frame (this, fr) (?this', fr1)" using Found(5) by (simp add: frame_def)
    have sp: "set (path_of node) \<subseteq> marked SolutionPath m'"
    proof
      fix t assume "t \<in> set (path_of node)"
      then show "t \<in> marked SolutionPath m'" using Found(6)[of t] by (simp add: marked_iff)
    qed
    show ?thesis
      using that(2)[OF Found(4) r' f' _ _ Found(1,2,3)] ex sp by simp
  next
    case (Expand node fr1 m1 m2 added)
    let ?this' = "this\<lparr>numExplored := numExplored this + 1, maze := m2\<rparr>"
    let ?fr' = "add_children node (goal this) added fr1"
    let ?m = "maze this"
    have mem: "node \<in> set (nodes_of fr)"
      using Expand(2) by (metis mset_add set_mset_mset union_single_eq_member add.commute union_iff insert_iff set_mset_add_mset_insert)
    have sub: "set (nodes_of fr1) \<subseteq> set (nodes_of fr)"
      using Expand(2) by (metis mset_subset_eqD mset_subset_eq_add_left set_mset_mset subsetI)
    have d1: "distinct (map state (node # nodes_of fr1))"
      using distinct_states_mset[of "nodes_of fr" "node # nodes_of fr1"] Expand(2) dist by simp
    have nin: "state node \<notin> frontier_states fr1" and dfr1: "distinct (map state (nodes_of fr1))"
      using d1 by (auto simp: frontier_states_def)
    have nex: "state node \<notin> marked Explored ?m"
      using disj mem by (auto simp: frontier_states_def)
    have nok: "node_ok ?m (start this) node" using oks mem by simp
    have "state node \<in> set (path_of node)" using last_in_set[of "path_of node"] by simp
    then have cell: "cell_at ?m (state node) \<noteq> None"
      using nok is_path_passable passable_cell unfolding node_ok_def by blast
    have ex1: "marked Explored m1 = insert (state node) (marked Explored ?m)"
    proof (rule set_eqI)
      fix t show "t \<in> marked Explored m1 \<longleftrightarrow> t \<in> insert (state node) (marked Explored ?m)"
        using Expand(4)[of t] by (simp add: marked_iff)
    qed
    have nbne: "snd x \<noteq> state node" if "x \<in> set (nbrs ?m (state node))" for x
    proof -
      have "snd x \<in> snd ` set (nbrs ?m (state node))" using that by simp
      then have "adjacent (state node) (snd x)" using nbrs_set[of ?m "state node"] by auto
      then show ?thesis by (auto simp: adjacent_def)
    qed
    have addable_eq: "addable m1 fr1 (snd x) \<longleftrightarrow>
        snd x \<notin> frontier_states fr1 \<and> snd x \<notin> marked Explored ?m"
      if "x \<in> set (nbrs ?m (state node))" for x
      using nbne[OF that] Expand(4)
      by (simp add: addable_def containers_state_iff frontier_states_def marked_iff)
    have added: "added = filter (\<lambda>x. snd x \<notin> frontier_states fr1 \<and> snd x \<notin> marked Explored ?m)
                 (nbrs ?m (state node))"
      unfolding Expand(5) using addable_eq by (simp cong: filter_cong)
    have asub: "set added \<subseteq> set (nbrs ?m (state node))" using added by auto
    have afr: "snd ` set added \<inter> frontier_states fr1 = {}"
      using added by auto
    have aex: "snd ` set added \<inter> marked Explored m1 = {}"
    proof -
      have "snd x \<notin> marked Explored m1" if "x \<in> set added" for x
      proof -
        have "x \<in> set (nbrs ?m (state node))" "snd x \<notin> marked Explored ?m"
          using that added by auto
        then show ?thesis using nbne[of x] ex1 by simp
      qed
      then show ?thesis by auto
    qed
    have ex2: "marked Explored m2 = marked Explored m1"
    proof (rule set_eqI)
      fix t show "t \<in> marked Explored m2 \<longleftrightarrow> t \<in> marked Explored m1"
        using Expand(8)[of t] aex by (auto simp: marked_iff)
    qed
    have nodes': "mset (nodes_of ?fr') = mset (nodes_of fr1) + mset (map (child_of node (goal this)) added)"
      by (rule add_children_mset)
    have set': "set (nodes_of ?fr') = set (nodes_of fr1) \<union> child_of node (goal this) ` set added"
      using mset_eq_setD[of "nodes_of ?fr'" "nodes_of fr1 @ map (child_of node (goal this)) added"]
        nodes' by simp
    have fs': "frontier_states ?fr' = frontier_states fr1 \<union> snd ` set added"
      unfolding frontier_states_def set' by (auto simp: image_Un image_image)
    have "dims_ok ?this'" using same_types_dims[OF Expand(7) dims] by (simp add: dims_ok_def)
    moreover have "\<forall>n\<in>set (nodes_of ?fr'). node_ok m2 (start this) n"
    proof
      fix n assume "n \<in> set (nodes_of ?fr')"
      then consider "n \<in> set (nodes_of fr1)" | x where "x \<in> set added" "n = child_of node (goal this) x"
        using set' by auto
      then have "node_ok ?m (start this) n"
      proof cases
        case 1
        then show ?thesis using oks sub by auto
      next
        case 2
        then have "x \<in> set (nbrs ?m (state node))" using asub by blast
        then show ?thesis using node_ok_child[OF nok, of x "goal this"] 2 by simp
      qed
      then show "node_ok m2 (start this) n" using node_ok_same_types[OF Expand(7)] by simp
    qed
    ultimately have s': "inv_safe (?this', ?fr')" by (simp add: inv_safe_def)
    have dadd: "distinct (map snd added)"
      unfolding added using nbrs_distinct[of ?m "state node"] by (simp add: distinct_map_filter)
    have "distinct (map state (nodes_of fr1 @ map (child_of node (goal this)) added))"
      using dfr1 dadd afr by (auto simp: frontier_states_def comp_def)
    then have d': "distinct (map state (nodes_of ?fr'))"
      using distinct_states_mset[of "nodes_of ?fr'" "nodes_of fr1 @ map (child_of node (goal this)) added"]
        nodes' by simp
    have "frontier_states fr1 \<inter> marked Explored ?m = {}"
      using disj sub by (auto simp: frontier_states_def)
    then have "frontier_states ?fr' \<inter> marked Explored m2 = {}"
      using fs' ex2 ex1 aex nin by auto
    then have r': "run_inv (?this', ?fr')" using s' d' by (simp add: run_inv_def)
    have f': "frame (this, fr) (?this', ?fr')" using Expand(7) by (simp add: frame_def)
    have ex': "marked Explored (maze ?this') = insert (state node) (marked Explored ?m)"
      using ex2 ex1 by simp
    show ?thesis
      using that(3)[OF Expand(6) r' f' _ _ Expand(1,2,3) nex cell _ added refl] ex' by simp
  qed
qed

lemma scan_cells_result:
  assumes "\<forall>p\<in>set ps. cell_at m (int (fst p), int (snd p)) = Some (m ! fst p ! snd p)"
  shows "if conflict st (positions_of Start m ps) \<or> conflict gl (positions_of Goal m ps)
         then scan_cells m ps (st, gl) \<in> {Inl OnlyOneStart, Inl OnlyOneGoal}
         else scan_cells m ps (st, gl) =
              Inr (pick st (positions_of Start m ps), pick gl (positions_of Goal m ps))"
  using assms
proof (induction ps arbitrary: st gl)
  case Nil
  then show ?case by (simp add: positions_of_def conflict_def pick_def)
next
  case (Cons p ps)
  obtain i j where p: "p = (i, j)" by (cases p)
  have c: "cell_at m (int i, int j) = Some (m ! i ! j)" using Cons.prems p by simp
  have rest: "\<forall>p\<in>set ps. cell_at m (int (fst p), int (snd p)) = Some (m ! fst p ! snd p)"
    using Cons.prems by simp
  note IH = Cons.IH[OF rest]
  consider (S) "type (m ! i ! j) = Start" | (G) "type (m ! i ! j) = Goal"
    | (O) "type (m ! i ! j) \<noteq> Start" "type (m ! i ! j) \<noteq> Goal" by blast
  then show ?case
  proof cases
    case S
    have ps: "positions_of Start m (p # ps) = p # positions_of Start m ps"
      "positions_of Goal m (p # ps) = positions_of Goal m ps"
      using S p by (simp_all add: positions_of_def)
    show ?thesis
    proof (cases "st = None")
      case True
      have sc: "scan_cells m (p # ps) (st, gl) = scan_cells m ps (Some (int i, int j), gl)"
        using S c p True by simp
      have cf: "conflict st (p # positions_of Start m ps) \<longleftrightarrow>
            conflict (Some (int i, int j)) (positions_of Start m ps)"
        using True by (cases "positions_of Start m ps") (auto simp: conflict_def)
      have pk: "\<not> conflict (Some (int i, int j)) (positions_of Start m ps) \<Longrightarrow>
         pick (Some (int i, int j)) (positions_of Start m ps) = pick st (p # positions_of Start m ps)"
        using p by (cases "positions_of Start m ps") (auto simp: conflict_def pick_def)
      show ?thesis using IH[of "Some (int i, int j)" gl] unfolding ps sc cf
        by (auto simp: pk)
    next
      case False
      then have "scan_cells m (p # ps) (st, gl) = Inl OnlyOneStart" using S c p by simp
      moreover have "conflict st (p # positions_of Start m ps)"
        using False by (simp add: conflict_def)
      ultimately show ?thesis unfolding ps by simp
    qed
  next
    case G
    have ps: "positions_of Goal m (p # ps) = p # positions_of Goal m ps"
      "positions_of Start m (p # ps) = positions_of Start m ps"
      using G p by (simp_all add: positions_of_def)
    show ?thesis
    proof (cases "gl = None")
      case True
      have sc: "scan_cells m (p # ps) (st, gl) = scan_cells m ps (st, Some (int i, int j))"
        using G c p True by simp
      have cf: "conflict gl (p # positions_of Goal m ps) \<longleftrightarrow>
            conflict (Some (int i, int j)) (positions_of Goal m ps)"
        using True by (cases "positions_of Goal m ps") (auto simp: conflict_def)
      have pk: "\<not> conflict (Some (int i, int j)) (positions_of Goal m ps) \<Longrightarrow>
         pick (Some (int i, int j)) (positions_of Goal m ps) = pick gl (p # positions_of Goal m ps)"
        using p by (cases "positions_of Goal m ps") (auto simp: conflict_def pick_def)
      show ?thesis using IH[of st "Some (int i, int j)"] unfolding ps sc cf
        by (auto simp: pk)
    next
      case False
      then have "scan_cells m (p # ps) (st, gl) = Inl OnlyOneGoal" using G c p by simp
      moreover have "conflict gl (p # positions_of Goal m ps)"
        using False by (simp add: conflict_def)
      ultimately show ?thesis unfolding ps by simp
    qed
  next
    case O
    have ps: "positions_of Goal m (p # ps) = positions_of Goal m ps"
      "positions_of Start m (p # ps) = positions_of Start m ps"
      using O p by (simp_all add: positions_of_def)
    have sc: "scan_cells m (p # ps) (st, gl) = scan_cells m ps (st, gl)"
      using O c p by simp
    show ?thesis using IH[of st gl] unfolding ps sc .
  qed
qed

lemma rectangular_row:
  assumes "rectangular m" "i < length m"
  shows "length (m ! i) = length (m ! 0)"
proof -
  have "\<forall>row\<in>set m. length row = length (m ! 0)"
    using assms(1) unfolding rectangular_def list_all_iff by blast
  then show ?thesis using assms(2) nth_mem by blast
qed

lemma rectangular_positions:
  assumes "rectangular m" "p \<in> set (all_positions m)"
  shows "cell_at m (int (fst p), int (snd p)) = Some (m ! fst p ! snd p)"
  using assms rectangular_row[OF assms(1), of "fst p"]
  by (cases p) (auto simp: all_positions_def cell_at_def)

lemma concat_positions:
  assumes "rectangular m"
  shows "map (\<lambda>p. m ! fst p ! snd p) (all_positions m) = concat m"
proof -
  let ?w = "length (m ! 0)"
  have "map (\<lambda>p. m ! fst p ! snd p) (all_positions m) =
        concat (map (\<lambda>i. map (\<lambda>j. m ! i ! j) [0..<?w]) [0..<length m])"
    by (simp add: all_positions_def product_concat_map map_concat comp_def)
  also have "\<dots> = concat (map (\<lambda>i. m ! i) [0..<length m])"
  proof -
    have "map (\<lambda>j. m ! i ! j) [0..<?w] = m ! i" if "i < length m" for i
      using rectangular_row[OF assms that] by (metis map_nth)
    then have "map (\<lambda>i. map (\<lambda>j. m ! i ! j) [0..<?w]) [0..<length m] =
               map (\<lambda>i. m ! i) [0..<length m]"
      by (intro map_cong) simp_all
    then show ?thesis by (rule arg_cong)
  qed
  also have "\<dots> = concat m" by (simp add: map_nth)
  finally show ?thesis .
qed

lemma count_positions:
  assumes "rectangular m"
  shows "length (positions_of t m (all_positions m)) = count_type t m"
proof -
  have "count_type t m =
     length (filter (\<lambda>cell. type cell = t) (map (\<lambda>p. m ! fst p ! snd p) (all_positions m)))"
    by (simp add: count_type_def concat_positions[OF assms])
  also have "\<dots> = length (positions_of t m (all_positions m))"
    by (simp add: positions_of_def filter_map comp_def)
  finally show ?thesis by simp
qed

lemma Maze_constructor_eq:
  assumes "rectangular m"
  shows "Maze_constructor m =
     (case scan_cells m (all_positions m) (None, None) of
        Inl e \<Rightarrow> Inl e
      | Inr (st, gl) \<Rightarrow>
          (case st of None \<Rightarrow> Inl NoStart
           | Some s \<Rightarrow> (case gl of None \<Rightarrow> Inl NoGoal
             | Some g \<Rightarrow> Inr \<lparr>maze = m, numExplored = 0, solutionType = Pending,
                  start = s, goal = g, width = int (length (m ! 0)),
                  height = int (length m)\<rparr>)))"
  using assms by (simp add: Maze_constructor_def all_positions_def rectangular_def Let_def)

lemma constructor_error:
  assumes "rectangular m" "count_type Start m \<noteq> 1 \<or> count_type Goal m \<noteq> 1"
  shows "Maze_constructor m \<in> {Inl OnlyOneStart, Inl OnlyOneGoal, Inl NoStart, Inl NoGoal}"
proof -
  let ?S = "positions_of Start m (all_positions m)" and ?G = "positions_of Goal m (all_positions m)"
  have cs: "length ?S = count_type Start m" "length ?G = count_type Goal m"
    using count_positions[OF assms(1)] by simp_all
  have valid: "\<forall>p\<in>set (all_positions m).
      cell_at m (int (fst p), int (snd p)) = Some (m ! fst p ! snd p)"
    using rectangular_positions[OF assms(1)] by blast
  note r = scan_cells_result[OF valid, of None None]
  show ?thesis
  proof (cases "conflict None ?S \<or> conflict None ?G")
    case True
    then have "scan_cells m (all_positions m) (None, None) \<in> {Inl OnlyOneStart, Inl OnlyOneGoal}"
      using r by simp
    then show ?thesis unfolding Maze_constructor_eq[OF assms(1)] by auto
  next
    case False
    then have sc: "scan_cells m (all_positions m) (None, None) = Inr (pick None ?S, pick None ?G)"
      using r by simp
    have le: "length ?S \<le> 1" "length ?G \<le> 1" using False by (auto simp: conflict_def)
    then have "?S = [] \<or> ?G = []" using assms(2) cs
      by (metis One_nat_def le_Suc_eq le_zero_eq length_0_conv)
    then show ?thesis unfolding Maze_constructor_eq[OF assms(1)] sc
      by (auto simp: pick_def split: list.splits option.splits)
  qed
qed

lemma constructor_ok:
  assumes "rectangular m" "count_type Start m = 1" "count_type Goal m = 1"
  shows "\<exists>this cs cg. Maze_constructor m = Inr this \<and> maze this = m \<and> dims_ok this \<and>
     cell_at m (start this) = Some cs \<and> type cs = Start \<and>
     cell_at m (goal this) = Some cg \<and> type cg = Goal"
proof -
  let ?S = "positions_of Start m (all_positions m)" and ?G = "positions_of Goal m (all_positions m)"
  have cs: "length ?S = 1" "length ?G = 1"
    using count_positions[OF assms(1)] assms(2,3) by simp_all
  then obtain ps pg where sg: "?S = [ps]" "?G = [pg]"
    by (metis One_nat_def length_0_conv length_Suc_conv)
  have valid: "\<forall>p\<in>set (all_positions m).
      cell_at m (int (fst p), int (snd p)) = Some (m ! fst p ! snd p)"
    using rectangular_positions[OF assms(1)] by blast
  have "ps \<in> set ?S" "pg \<in> set ?G" using sg by simp_all
  then have mem: "ps \<in> set (all_positions m)" "type (m ! fst ps ! snd ps) = Start"
    "pg \<in> set (all_positions m)" "type (m ! fst pg ! snd pg) = Goal"
    by (simp_all add: positions_of_def)
  have nc: "\<not> (conflict None ?S \<or> conflict None ?G)" using sg by (simp add: conflict_def)
  have sc: "scan_cells m (all_positions m) (None, None) =
      Inr (Some (int (fst ps), int (snd ps)), Some (int (fst pg), int (snd pg)))"
    using scan_cells_result[OF valid, of None None] nc sg by (simp add: pick_def)
  let ?mz = "\<lparr>maze = m, numExplored = 0, solutionType = Pending,
       start = (int (fst ps), int (snd ps)), goal = (int (fst pg), int (snd pg)),
       width = int (length (m ! 0)), height = int (length m)\<rparr>"
  have a: "Maze_constructor m = Inr ?mz"
    unfolding Maze_constructor_eq[OF assms(1)] sc by simp
  have rows: "\<forall>row\<in>set m. length row = length (m ! 0)"
    using assms(1) unfolding rectangular_def list_all_iff by blast
  have "dims_ok ?mz \<longleftrightarrow> (\<forall>row\<in>set m. length row = length (m ! 0))"
    by (simp add: dims_ok_def list_all_iff)
  then have b: "dims_ok ?mz" using rows by blast
  have c: "cell_at m (start ?mz) = Some (m ! fst ps ! snd ps)"
    "cell_at m (goal ?mz) = Some (m ! fst pg ! snd pg)"
    using valid mem(1,3) by simp_all
  have d: "maze ?mz = m" by simp
  show ?thesis using a b c d mem(2,4) by blast
qed

lemma nodes_of_new: "nodes_of (add (new_frontier k) n) = [n]"
  by (cases k) (simp_all add: pq_push_def pq_push1_def siftUp_def siftUp_loop.simps)

lemma solve_ok:
  assumes "dims_ok this" "cell_at (maze this) (start this) = Some cs" "type cs \<noteq> Wall"
  shows "\<exists>c. solve this k = Inr c \<and> run_inv c \<and> frame (this, snd c) c \<and>
     solutionType (fst c) = Continue \<and>
     marked Explored (maze (fst c)) = marked Explored (maze this) - {start this} \<and>
     nodes_of (snd c) = [Node (start this) None None
        (calcManhattanDistance (start this) (goal this)) 0] \<and>
     snd c = add (new_frontier k) (Node (start this) None None
        (calcManhattanDistance (start this) (goal this)) 0)"
proof -
  let ?root = "Node (start this) None None (calcManhattanDistance (start this) (goal this)) 0"
  obtain m where m: "setCellState (maze this) (start this) Frontier = Inr m"
    "same_types (maze this) m"
    "\<And>t. cell_at m t = (if t = start this then Some (cs\<lparr>cellState := Frontier\<rparr>)
        else cell_at (maze this) t)"
    using setCellState_ok[OF assms(2), of Frontier] by blast
  let ?mz = "this\<lparr>maze := m, numExplored := 0, solutionType := Continue\<rparr>"
  let ?fr = "add (new_frontier k) ?root"
  have s: "solve this k = Inr (?mz, ?fr)" using m(1) by (simp add: solve_def Let_def)
  have st: "\<And>t. state_at m t = (if t = start this then Some Frontier else state_at (maze this) t)"
    using m(3) by (simp add: state_at_def)
  have ex: "marked Explored m = marked Explored (maze this) - {start this}"
  proof (rule set_eqI)
    fix t show "t \<in> marked Explored m \<longleftrightarrow> t \<in> marked Explored (maze this) - {start this}"
      using st[of t] by (simp add: marked_iff)
  qed
  have "passable m (start this)" using m(3) assms(3) by (simp add: passable_def)
  then have "node_ok m (start this) ?root" by (simp add: node_ok_def)
  moreover have "dims_ok ?mz" using same_types_dims[OF m(2) assms(1)] by (simp add: dims_ok_def)
  ultimately have "inv_safe (?mz, ?fr)" by (simp add: inv_safe_def nodes_of_new)
  moreover have "frontier_states ?fr \<inter> marked Explored m = {}"
    using ex by (simp add: frontier_states_def nodes_of_new)
  ultimately have "run_inv (?mz, ?fr)" by (simp add: run_inv_def nodes_of_new)
  moreover have "frame (this, ?fr) (?mz, ?fr)" using m(2) by (simp add: frame_def)
  ultimately show ?thesis using s ex by (simp add: nodes_of_new)
qed

lemma solve_next_ok:
  assumes "run_inv c"
  shows "\<exists>c'. solve_next c = Inr c' \<and> run_inv c' \<and> frame c c'"
proof (cases c)
  case (Pair this fr)
  from assms[unfolded Pair] show ?thesis
  proof (cases rule: step_cases)
    case Empty
    have "run_inv (this\<lparr>solutionType := NoSolution\<rparr>, fr)"
      using assms Pair by (simp add: run_inv_def inv_safe_def dims_ok_def)
    then show ?thesis using Empty Pair by (simp add: frame_def)
  next
    case (Found this' fr' node)
    then show ?thesis using Pair by blast
  next
    case (Expand this' fr' node fr1 added)
    then show ?thesis using Pair by blast
  qed
qed

lemma call_next_ok: "run_inv c \<Longrightarrow> \<exists>c'. call_next n c = Inr c' \<and> run_inv c'"
proof (induction n arbitrary: c)
  case 0
  then show ?case by simp
next
  case (Suc n)
  obtain c1 where c1: "solve_next c = Inr c1" "run_inv c1"
    using solve_next_ok[OF Suc.prems] by blast
  then show ?case using Suc.IH[OF c1(2)] by simp
qed

text \<open>C8. For a rectangular grid, the constructor raises exactly when the number of Start
  cells or the number of Goal cells is zero or more than one, and what it raises then is
  one of its four errors about the start and the goal. When there is exactly one Start and
  exactly one Goal cell it returns a maze object, \<open>solve\<close> succeeds on it for each of the
  four frontier classes, and no number of calls of the returned closure raises anything.\<close>

theorem constructor_topology:
  assumes "rectangular m"
  shows "((\<exists>e. Maze_constructor m = Inl e) \<longleftrightarrow>
            count_type Start m = 0 \<or> 1 < count_type Start m \<or>
            count_type Goal m = 0 \<or> 1 < count_type Goal m) \<and>
         (\<forall>e. Maze_constructor m = Inl e \<longrightarrow>
            e \<in> {OnlyOneStart, OnlyOneGoal, NoStart, NoGoal}) \<and>
         (count_type Start m = 1 \<and> count_type Goal m = 1 \<longrightarrow>
            (\<exists>this. Maze_constructor m = Inr this \<and>
               (\<forall>k. \<exists>c. solve this k = Inr c \<and> (\<forall>n. \<exists>c'. call_next n c = Inr c'))))"
proof (cases "count_type Start m = 1 \<and> count_type Goal m = 1")
  case True
  obtain this cs cg where t: "Maze_constructor m = Inr this" "maze this = m" "dims_ok this"
    "cell_at m (start this) = Some cs" "type cs = Start"
    using constructor_ok[OF assms] True by blast
  have "\<exists>c. solve this k = Inr c \<and> (\<forall>n. \<exists>c'. call_next n c = Inr c')" for k
  proof -
    obtain c where c: "solve this k = Inr c" "run_inv c"
      using solve_ok[OF t(3), of cs k] t(2,4,5) by auto
    then show ?thesis using call_next_ok[OF c(2)] by blast
  qed
  then show ?thesis using t(1) True by auto
next
  case False
  then have "Maze_constructor m \<in> {Inl OnlyOneStart, Inl OnlyOneGoal, Inl NoStart, Inl NoGoal}"
    using constructor_error[OF assms] by blast
  moreover have "count_type Start m = 0 \<or> 1 < count_type Start m \<or>
            count_type Goal m = 0 \<or> 1 < count_type Goal m"
    using False by linarith
  ultimately show ?thesis using False by auto
qed

lemma square_grid_facts:
  "rectangular square_grid" "count_type Start square_grid = 1" "count_type Goal square_grid = 1"
  by (simp_all add: rectangular_def count_type_def square_grid_def)

theorem constructor_topology_witness:
  "rectangular square_grid \<and> count_type Start square_grid = 1 \<and>
   count_type Goal square_grid = 1 \<and>
   (\<exists>this. Maze_constructor square_grid = Inr this \<and>
      (\<forall>k. \<exists>c. solve this k = Inr c \<and> (\<forall>n. \<exists>c'. call_next n c = Inr c')))"
  using constructor_topology[OF square_grid_facts(1)] square_grid_facts by blast

section \<open>Stepping until a terminal outcome\<close>

lemma finite_cells: "finite {s. cell_at m s \<noteq> None}"
proof -
  have "{s. cell_at m s \<noteq> None} \<subseteq>
        (\<Union>i\<in>{..<length m}. (\<lambda>j. (int i, int j)) ` {..<length (m ! i)})"
  proof
    fix s assume "s \<in> {s. cell_at m s \<noteq> None}"
    then obtain x where x: "cell_at m s = Some x" by auto
    obtain r c where s: "s = (r, c)" by (cases s)
    have b: "0 \<le> r" "nat r < length m" "0 \<le> c" "nat c < length (m ! nat r)"
      using x s by (simp_all add: cell_at_Some_iff)
    then have "s = (int (nat r), int (nat c))" using s by simp
    then show "s \<in> (\<Union>i\<in>{..<length m}. (\<lambda>j. (int i, int j)) ` {..<length (m ! i)})"
      using b by blast
  qed
  then show ?thesis by (rule finite_subset) simp
qed

lemma frame_refl [simp]: "frame c c"
  by (simp add: frame_def)

lemma frame_trans: "frame c c' \<Longrightarrow> frame c' c'' \<Longrightarrow> frame c c''"
  unfolding frame_def using same_types_trans by auto

lemma run_steps_terminal: "solutionType (fst c) \<noteq> Continue \<Longrightarrow> run_steps n c = Inr c"
  by (cases n) simp_all

lemma run_steps_inv: "run_inv c \<Longrightarrow> \<exists>c'. run_steps n c = Inr c' \<and> run_inv c' \<and> frame c c'"
proof (induction n arbitrary: c)
  case 0
  then show ?case by simp
next
  case (Suc n)
  show ?case
  proof (cases "solutionType (fst c) = Continue")
    case True
    obtain c1 where c1: "solve_next c = Inr c1" "run_inv c1" "frame c c1"
      using solve_next_ok[OF Suc.prems] by blast
    obtain c' where "run_steps n c1 = Inr c'" "run_inv c'" "frame c1 c'"
      using Suc.IH[OF c1(2)] by blast
    then show ?thesis using True c1 frame_trans by auto
  next
    case False
    then show ?thesis using Suc.prems by simp
  qed
qed

lemma run_steps_add: "run_steps i c = Inr c1 \<Longrightarrow> run_steps (i + k) c = run_steps k c1"
proof (induction i arbitrary: c)
  case 0
  then show ?case by simp
next
  case (Suc i)
  show ?case
  proof (cases "solutionType (fst c) = Continue")
    case True
    then obtain c2 where c2: "solve_next c = Inr c2" "run_steps i c2 = Inr c1"
      using Suc.prems by (auto split: sum.splits)
    then show ?thesis using Suc.IH[OF c2(2)] True by simp
  next
    case False
    then have "c1 = c" using Suc.prems by simp
    then show ?thesis using False by (simp add: run_steps_terminal)
  qed
qed

lemma remaining_less:
  assumes "same_types m m'" "marked Explored m' = insert s (marked Explored m)"
    "s \<notin> marked Explored m" "cell_at m s \<noteq> None"
  shows "remaining m' < remaining m"
proof -
  have d: "{s. cell_at m' s \<noteq> None} = {s. cell_at m s \<noteq> None}"
    using same_types_dom[OF assms(1)] by simp
  have "{s. cell_at m s \<noteq> None} - marked Explored m' \<subset> {s. cell_at m s \<noteq> None} - marked Explored m"
    using assms(2,3,4) by auto
  moreover have "finite ({s. cell_at m s \<noteq> None} - marked Explored m)"
    using finite_cells by (rule finite_Diff)
  ultimately show ?thesis unfolding remaining_def d by (rule psubset_card_mono[rotated])
qed

lemma run_steps_terminates:
  assumes "run_inv c" "solutionType (fst c) = Continue"
  shows "\<exists>n c'. run_steps n c = Inr c' \<and> solutionType (fst c') \<in> {FoundSolution, NoSolution}"
  using assms
proof (induction "remaining (maze (fst c))" arbitrary: c rule: less_induct)
  case less
  obtain this fr where c: "c = (this, fr)" by (cases c)
  from less.prems(1)[unfolded c] show ?case
  proof (cases rule: step_cases)
    case Empty
    then have "run_steps 1 c = Inr (this\<lparr>solutionType := NoSolution\<rparr>, fr)"
      using less.prems(2) c by simp
    then show ?thesis by (intro exI[of _ 1]) simp
  next
    case (Found this' fr' node)
    then have "run_steps 1 c = Inr (this', fr')" using less.prems(2) c by simp
    then show ?thesis using Found(4) by (intro exI[of _ 1]) simp
  next
    case (Expand this' fr' node fr1 added)
    have st: "same_types (maze this) (maze this')" using Expand(3) by (simp add: frame_def)
    have "remaining (maze this') < remaining (maze this)"
      using remaining_less[OF st Expand(11,9,10)] .
    moreover have "solutionType this' = Continue" using Expand(4) less.prems(2) c by simp
    ultimately obtain n c' where n: "run_steps n (this', fr') = Inr c'"
      "solutionType (fst c') \<in> {FoundSolution, NoSolution}"
      using less.hyps[of "(this', fr')"] Expand(2) c by auto
    have "run_steps (Suc n) c = Inr c'" using n(1) Expand(1) less.prems(2) c by simp
    then show ?thesis using n(2) by blast
  qed
qed

lemma passable_open_states: "passable m s \<Longrightarrow> s \<in> set (open_states m)"
proof -
  assume p: "passable m s"
  obtain r c where s: "s = (r, c)" by (cases s)
  obtain x where x: "cell_at m (r, c) = Some x" "type x \<noteq> Wall"
    using p s by (auto simp: passable_def split: option.splits)
  have b: "0 \<le> r" "nat r < length m" "0 \<le> c" "nat c < length (m ! nat r)"
    "x = m ! nat r ! nat c"
    using x(1) by (simp_all add: cell_at_Some_iff)
  let ?row = "\<lambda>i. concat (map (\<lambda>j.
       if type (m ! i ! j) \<noteq> Wall then [(int i, int j)] else []) [0..<length (m ! i)])"
  have "(int (nat r), int (nat c)) \<in> set (?row (nat r))"
    using b x(2) by force
  then have "(int (nat r), int (nat c)) \<in> set (concat (map ?row [0..<length m]))"
    using b(2) by force
  then show ?thesis using b s by (simp add: open_states_def)
qed

lemma frontier_bound:
  assumes "run_inv c" "same_types g (maze (fst c))"
  shows "length (nodes_of (snd c)) \<le> length (open_states g)"
proof -
  have d: "distinct (map state (nodes_of (snd c)))" using assms(1) by (simp add: run_inv_def)
  have "frontier_states (snd c) \<subseteq> set (open_states g)"
  proof
    fix s assume "s \<in> frontier_states (snd c)"
    then obtain n where n: "n \<in> set (nodes_of (snd c))" "s = state n"
      by (auto simp: frontier_states_def)
    then have "is_path (maze (fst c)) (path_of n)"
      using assms(1) by (simp add: run_inv_def inv_safe_def node_ok_def)
    moreover have "state n \<in> set (path_of n)" using last_in_set[of "path_of n"] by simp
    ultimately have "passable (maze (fst c)) s" using is_path_passable n(2) by blast
    then have "passable g s" using same_types_passable[OF assms(2)] by simp
    then show "s \<in> set (open_states g)" by (rule passable_open_states)
  qed
  then have "card (frontier_states (snd c)) \<le> card (set (open_states g))"
    by (intro card_mono) simp_all
  moreover have "card (frontier_states (snd c)) = length (nodes_of (snd c))"
    using distinct_card[OF d] by (simp add: frontier_states_def)
  ultimately show ?thesis using card_length[of "open_states g"] by linarith
qed

lemma avoids_step:
  assumes "run_inv c" "avoids E c" "solutionType (fst c) = Continue" "solve_next c = Inr c'"
  shows "avoids E c'"
proof -
  obtain this fr where c: "c = (this, fr)" by (cases c)
  have E: "E \<inter> frontier_states fr = {}" "E \<subseteq> marked Explored (maze this)"
    using assms(2,3) c by (simp_all add: avoids_def)
  from assms(1)[unfolded c] show ?thesis
  proof (cases rule: step_cases)
    case Empty
    then show ?thesis using assms(4) c E by (auto simp: avoids_def)
  next
    case (Found this' fr' node)
    have "set (nodes_of fr') \<subseteq> set (nodes_of fr)"
      using Found(7) by (metis mset_subset_eqD mset_subset_eq_add_left set_mset_mset subsetI)
    then have "frontier_states fr' \<subseteq> frontier_states fr" by (auto simp: frontier_states_def)
    then show ?thesis using assms(4) c E Found(1,4) by (auto simp: avoids_def)
  next
    case (Expand this' fr' node fr1 added)
    have sub: "set (nodes_of fr1) \<subseteq> set (nodes_of fr)"
      using Expand(7) by (metis mset_subset_eqD mset_subset_eq_add_left set_mset_mset subsetI)
    have "set (nodes_of fr') = set (nodes_of fr1) \<union> child_of node (goal this) ` set added"
      using mset_eq_setD[of "nodes_of fr'" "nodes_of fr1 @ map (child_of node (goal this)) added"]
        add_children_mset[of node "goal this" added fr1] Expand(13) by simp
    then have fs: "frontier_states fr' = frontier_states fr1 \<union> snd ` set added"
      unfolding frontier_states_def by (auto simp: image_Un image_image)
    have "snd ` set added \<inter> marked Explored (maze this) = {}" using Expand(12) by auto
    moreover have "frontier_states fr1 \<subseteq> frontier_states fr"
      using sub by (auto simp: frontier_states_def)
    ultimately have "E \<inter> frontier_states fr' = {}" using E fs by blast
    moreover have "E \<subseteq> marked Explored (maze this')" using E(2) Expand(11) by auto
    ultimately show ?thesis using assms(4) c Expand(1) by (auto simp: avoids_def)
  qed
qed

lemma avoids_run:
  "run_inv c \<Longrightarrow> avoids E c \<Longrightarrow> run_steps k c = Inr c' \<Longrightarrow> avoids E c'"
proof (induction k arbitrary: c)
  case 0
  then show ?case by simp
next
  case (Suc k)
  show ?case
  proof (cases "solutionType (fst c) = Continue")
    case True
    then obtain c1 where c1: "solve_next c = Inr c1" "run_steps k c1 = Inr c'"
      using Suc.prems(3) by (auto split: sum.splits)
    have "run_inv c1" using solve_next_ok[OF Suc.prems(1)] c1(1) by auto
    moreover have "avoids E c1" using avoids_step[OF Suc.prems(1,2) True c1(1)] .
    ultimately show ?thesis using Suc.IH c1(2) by blast
  next
    case False
    then show ?thesis using Suc.prems by simp
  qed
qed

lemma explored_never_readded:
  assumes "run_inv c0" "i \<le> j" "run_steps i c0 = Inr ci" "run_steps j c0 = Inr cj"
  shows "marked Explored (maze (fst ci)) \<inter> frontier_states (snd cj) = {}"
proof -
  obtain k where k: "j = i + k" using assms(2) le_Suc_ex by blast
  have ri: "run_inv ci" using run_steps_inv[OF assms(1), of i] assms(3) by auto
  then have "avoids (marked Explored (maze (fst ci))) ci"
    by (auto simp: avoids_def run_inv_def)
  moreover have "run_steps k ci = Inr cj" using run_steps_add[OF assms(3), of k] assms(4) k by simp
  ultimately have "avoids (marked Explored (maze (fst ci))) cj" using avoids_run[OF ri] by blast
  then show ?thesis by (simp add: avoids_def)
qed

lemma steps_on_start:
  assumes "rectangular g" "count_type Start g = 1" "count_type Goal g = 1"
  shows "\<exists>this c0. Maze_constructor g = Inr this \<and> solve this k = Inr c0 \<and> run_inv c0 \<and>
     solutionType (fst c0) = Continue \<and> same_types g (maze (fst c0)) \<and>
     (\<forall>n. steps_on g k n = run_steps n c0)"
proof -
  obtain this cs cg where t: "Maze_constructor g = Inr this" "maze this = g" "dims_ok this"
    "cell_at g (start this) = Some cs" "type cs = Start"
    using constructor_ok[OF assms] by blast
  obtain c0 where c0: "solve this k = Inr c0" "run_inv c0" "frame (this, snd c0) c0"
    "solutionType (fst c0) = Continue"
    using solve_ok[OF t(3), of cs k] t(2,4,5) by auto
  have "same_types g (maze (fst c0))" using c0(3) t(2) by (simp add: frame_def)
  then show ?thesis using t(1) c0
    by (intro exI[of _ this] exI[of _ c0]) (simp add: steps_on_def)
qed

text \<open>C3. On a rectangular grid with exactly one Start and one Goal cell, for each of the
  four frontier classes: stepping (the closure called while the outcome is \<open>Continue\<close>)
  raises nothing and reaches \<open>FoundSolution\<close> or \<open>NoSolution\<close> after finitely many
  steps; after any number of steps no two nodes of the frontier have the same state, and
  the frontier holds at most as many nodes as the grid has cells that are no walls; and a
  state whose cell is marked \<open>Explored\<close> after some number of steps is in the frontier
  after no later step.\<close>

theorem search_terminates:
  assumes "rectangular g" "count_type Start g = 1" "count_type Goal g = 1"
  shows "(\<exists>n c. steps_on g k n = Inr c \<and> solutionType (fst c) \<in> {FoundSolution, NoSolution}) \<and>
     (\<forall>n. \<exists>c. steps_on g k n = Inr c \<and> distinct (map state (nodes_of (snd c))) \<and>
          length (nodes_of (snd c)) \<le> length (open_states g)) \<and>
     (\<forall>i j ci cj. i \<le> j \<and> steps_on g k i = Inr ci \<and> steps_on g k j = Inr cj \<longrightarrow>
          marked Explored (maze (fst ci)) \<inter> state ` set (nodes_of (snd cj)) = {})"
proof -
  obtain this c0 where s: "run_inv c0" "solutionType (fst c0) = Continue"
    "same_types g (maze (fst c0))" "\<And>n. steps_on g k n = run_steps n c0"
    using steps_on_start[OF assms, of k] by blast
  have a: "\<exists>n c. steps_on g k n = Inr c \<and> solutionType (fst c) \<in> {FoundSolution, NoSolution}"
    using run_steps_terminates[OF s(1,2)] s(4) by simp
  have b: "\<exists>c. steps_on g k n = Inr c \<and> distinct (map state (nodes_of (snd c))) \<and>
          length (nodes_of (snd c)) \<le> length (open_states g)" for n
  proof -
    obtain c where c: "run_steps n c0 = Inr c" "run_inv c" "frame c0 c"
      using run_steps_inv[OF s(1), of n] by blast
    have "same_types g (maze (fst c))"
      using same_types_trans[OF s(3)] c(3) by (simp add: frame_def)
    then show ?thesis using c(1,2) frontier_bound[OF c(2)] s(4) by (simp add: run_inv_def)
  qed
  have c: "marked Explored (maze (fst ci)) \<inter> state ` set (nodes_of (snd cj)) = {}"
    if "i \<le> j" "steps_on g k i = Inr ci" "steps_on g k j = Inr cj" for i j ci cj
    using explored_never_readded[OF s(1) that(1)] that(2,3) s(4)
    by (simp add: frontier_states_def)
  show ?thesis using a b c by blast
qed

theorem search_terminates_witness:
  "rectangular square_grid \<and> count_type Start square_grid = 1 \<and>
   count_type Goal square_grid = 1 \<and>
   (\<exists>n c. steps_on square_grid AStarFrontierClass n = Inr c \<and>
      solutionType (fst c) \<in> {FoundSolution, NoSolution}) \<and>
   (\<forall>n. \<exists>c. steps_on square_grid AStarFrontierClass n = Inr c \<and>
      distinct (map state (nodes_of (snd c))) \<and>
      length (nodes_of (snd c)) \<le> length (open_states square_grid))"
  using search_terminates[OF square_grid_facts, of AStarFrontierClass] square_grid_facts
  by blast

section \<open>Breadth-first search\<close>

lemma is_path_append1:
  "is_path g (p @ [t]) \<longleftrightarrow>
     (if p = [] then passable g t else is_path g p \<and> adjacent (last p) t \<and> passable g t)"
  by (induction g p rule: is_path.induct) auto

lemma is_path_nonempty: "is_path g p \<Longrightarrow> p \<noteq> []"
  by (cases p) simp_all

lemma reached_known:
  assumes inv: "bfs_inv g s0 E (n # q)"
    and p: "is_path g p" "hd p = s0" "int (length p) - 1 \<le> pathCost n"
  shows "last p \<in> E \<union> state ` set (n # q)"
proof -
  have ne: "p \<noteq> []" using p(1) by (rule is_path_nonempty)
  show ?thesis
  proof (cases "butlast p = []")
    case True
    then have "p = [s0]" using ne p(2) by (cases p) (simp_all split: if_splits)
    then show ?thesis using inv by (simp add: bfs_inv_def)
  next
    case False
    have pe: "p = butlast p @ [last p]" using ne by simp
    have bp: "is_path g (butlast p)" "adjacent (last (butlast p)) (last p)" "passable g (last p)"
      using is_path_append1[of g "butlast p" "last p"] p(1) pe False by simp_all
    have "hd (butlast p) = s0" using p(2) False by (cases p) (simp_all split: if_splits)
    moreover have "int (length (butlast p)) = int (length p) - 1"
      using ne by (cases p) simp_all
    then have "int (length (butlast p)) - 1 < pathCost n" using p(3) by linarith
    ultimately have "last (butlast p) \<in> E" using inv bp(1) unfolding bfs_inv_def by auto
    then show ?thesis using inv bp(2,3) unfolding bfs_inv_def by blast
  qed
qed

lemma sorted_le_last: "sorted xs \<Longrightarrow> x \<in> set xs \<Longrightarrow> x \<le> last (xs :: int list)"
  by (induction xs) auto

lemma bfs_inv_expand:
  assumes inv: "bfs_inv g s0 E (n # q)"
    and nq: "state n \<notin> state ` set q"
    and ch: "\<forall>c\<in>set ch. pathCost c = pathCost n + 1"
    and st: "state ` set ch =
       {t. adjacent (state n) t \<and> passable g t \<and> t \<notin> state ` set q \<and> t \<notin> E}"
  shows "bfs_inv g s0 (insert (state n) E) (q @ ch)"
proof -
  let ?k = "pathCost n"
  have B1: "\<And>m p. m \<in> set (n # q) \<Longrightarrow> is_path g p \<Longrightarrow> hd p = s0 \<Longrightarrow> last p = state m \<Longrightarrow>
        pathCost m \<le> int (length p) - 1"
    and sorted: "sorted (map pathCost (n # q))"
    and spread: "pathCost (last (n # q)) \<le> ?k + 1"
    and B3: "\<And>p. is_path g p \<Longrightarrow> hd p = s0 \<Longrightarrow> int (length p) - 1 < ?k \<Longrightarrow> last p \<in> E"
    and B4: "\<And>e t. e \<in> E \<Longrightarrow> passable g t \<Longrightarrow> adjacent e t \<Longrightarrow> t \<in> E \<union> state ` set (n # q)"
    and B5: "s0 \<in> E \<union> state ` set (n # q)"
  proof -
    have all: "(\<forall>m\<in>set (n # q). \<forall>p. is_path g p \<and> hd p = s0 \<and> last p = state m \<longrightarrow>
         pathCost m \<le> int (length p) - 1) \<and>
     sorted (map pathCost (n # q)) \<and>
     (n # q \<noteq> [] \<longrightarrow> pathCost (last (n # q)) \<le> pathCost (hd (n # q)) + 1) \<and>
     (n # q \<noteq> [] \<longrightarrow> (\<forall>p. is_path g p \<and> hd p = s0 \<and>
         int (length p) - 1 < pathCost (hd (n # q)) \<longrightarrow> last p \<in> E)) \<and>
     (\<forall>e\<in>E. \<forall>t. passable g t \<and> adjacent e t \<longrightarrow> t \<in> E \<union> state ` set (n # q)) \<and>
     s0 \<in> E \<union> state ` set (n # q)"
      using inv unfolding bfs_inv_def .
    show "\<And>m p. m \<in> set (n # q) \<Longrightarrow> is_path g p \<Longrightarrow> hd p = s0 \<Longrightarrow> last p = state m \<Longrightarrow>
        pathCost m \<le> int (length p) - 1" using all by blast
    show "sorted (map pathCost (n # q))" using all by blast
    have "n # q \<noteq> []" "hd (n # q) = n" by simp_all
    then show "pathCost (last (n # q)) \<le> ?k + 1" using all by metis
    show "\<And>p. is_path g p \<Longrightarrow> hd p = s0 \<Longrightarrow> int (length p) - 1 < ?k \<Longrightarrow> last p \<in> E"
      using all \<open>hd (n # q) = n\<close> by (metis list.distinct(1))
    show "\<And>e t. e \<in> E \<Longrightarrow> passable g t \<Longrightarrow> adjacent e t \<Longrightarrow> t \<in> E \<union> state ` set (n # q)"
      using all by blast
    show "s0 \<in> E \<union> state ` set (n # q)" using all by blast
  qed
  have nself: "\<not> adjacent (state n) (state n)" by (simp add: adjacent_def)
  have new: "\<And>c. c \<in> set ch \<Longrightarrow> state c \<notin> E \<union> state ` set (n # q)"
  proof -
    fix c assume "c \<in> set ch"
    then have "state c \<in> state ` set ch" by simp
    then have "adjacent (state n) (state c)" "state c \<notin> state ` set q" "state c \<notin> E"
      unfolding st by simp_all
    then show "state c \<notin> E \<union> state ` set (n # q)" using nself by auto
  qed
  have lo: "\<And>x. x \<in> set q \<Longrightarrow> ?k \<le> pathCost x" using sorted by auto
  have hi: "\<And>x. x \<in> set q \<Longrightarrow> pathCost x \<le> ?k + 1"
  proof -
    fix x assume x: "x \<in> set q"
    then have "q \<noteq> []" by auto
    then have l: "last (n # q) = last q" by simp
    have "sorted (map pathCost q)" using sorted by simp
    then have "pathCost x \<le> pathCost (last q)"
      using x \<open>q \<noteq> []\<close> sorted_le_last[of "map pathCost q" "pathCost x"]
      by (simp add: last_map)
    then show "pathCost x \<le> ?k + 1" using spread l by simp
  qed
  have range: "\<And>x. x \<in> set (q @ ch) \<Longrightarrow> ?k \<le> pathCost x \<and> pathCost x \<le> ?k + 1"
    using lo hi ch by auto
  have C1: "\<forall>m\<in>set (q @ ch). \<forall>p. is_path g p \<and> hd p = s0 \<and> last p = state m \<longrightarrow>
         pathCost m \<le> int (length p) - 1"
  proof (intro ballI allI impI)
    fix m p assume m: "m \<in> set (q @ ch)" and p: "is_path g p \<and> hd p = s0 \<and> last p = state m"
    show "pathCost m \<le> int (length p) - 1"
    proof (cases "m \<in> set q")
      case True
      then show ?thesis using B1[of m p] p by simp
    next
      case False
      then have mc: "m \<in> set ch" using m by simp
      show ?thesis
      proof (rule ccontr)
        assume "\<not> pathCost m \<le> int (length p) - 1"
        then have "int (length p) - 1 \<le> ?k" using ch mc by simp
        then have "last p \<in> E \<union> state ` set (n # q)" using reached_known[OF inv] p by blast
        then show False using new[OF mc] p by simp
      qed
    qed
  qed
  have C2: "sorted (map pathCost (q @ ch))"
  proof -
    have "sorted (map pathCost q)" using sorted by simp
    moreover have "sorted (map pathCost ch)"
      using ch by (simp add: sorted_iff_nth_mono)
    moreover have "\<forall>x\<in>set q. \<forall>y\<in>set ch. pathCost x \<le> pathCost y" using hi ch by simp
    ultimately show ?thesis by (simp add: sorted_append)
  qed
  have C2': "q @ ch \<noteq> [] \<longrightarrow> pathCost (last (q @ ch)) \<le> pathCost (hd (q @ ch)) + 1"
  proof
    assume ne: "q @ ch \<noteq> []"
    then have "last (q @ ch) \<in> set (q @ ch)" "hd (q @ ch) \<in> set (q @ ch)"
      using last_in_set hd_in_set by blast+
    then show "pathCost (last (q @ ch)) \<le> pathCost (hd (q @ ch)) + 1"
      using range by (meson add_mono_thms_linordered_semiring(3) order_trans)
  qed
  have C3: "q @ ch \<noteq> [] \<longrightarrow> (\<forall>p. is_path g p \<and> hd p = s0 \<and>
        int (length p) - 1 < pathCost (hd (q @ ch)) \<longrightarrow> last p \<in> insert (state n) E)"
  proof (intro impI allI)
    fix p assume ne: "q @ ch \<noteq> []"
      and p: "is_path g p \<and> hd p = s0 \<and> int (length p) - 1 < pathCost (hd (q @ ch))"
    have hdm: "hd (q @ ch) \<in> set (q @ ch)" using ne hd_in_set by blast
    then have le: "int (length p) - 1 \<le> ?k" using range[of "hd (q @ ch)"] p by simp
    have known: "last p \<in> E \<union> state ` set (n # q)" using reached_known[OF inv] p le by blast
    show "last p \<in> insert (state n) E"
    proof (rule ccontr)
      assume a: "last p \<notin> insert (state n) E"
      then obtain m where m: "m \<in> set q" "last p = state m" using known by auto
      then have "pathCost m \<le> int (length p) - 1" using B1[of m p] p by simp
      moreover have "q \<noteq> []" using m(1) by auto
      then have "hd (q @ ch) = hd q" by simp
      moreover have "pathCost (hd q) \<le> pathCost m"
        using sorted m(1) \<open>q \<noteq> []\<close> by (cases q) auto
      ultimately show False using p by simp
    qed
  qed
  have sch: "state ` set (q @ ch) = state ` set q \<union> state ` set ch" by (simp add: image_Un)
  have C4: "\<forall>e\<in>insert (state n) E. \<forall>t. passable g t \<and> adjacent e t \<longrightarrow>
       t \<in> insert (state n) E \<union> state ` set (q @ ch)"
  proof (intro ballI allI impI)
    fix e t assume e: "e \<in> insert (state n) E" and t: "passable g t \<and> adjacent e t"
    show "t \<in> insert (state n) E \<union> state ` set (q @ ch)"
    proof (cases "e = state n")
      case True
      then show ?thesis using t unfolding sch st by auto
    next
      case False
      then have "t \<in> E \<union> state ` set (n # q)" using B4[of e t] e t by simp
      then show ?thesis unfolding sch by auto
    qed
  qed
  have C5: "s0 \<in> insert (state n) E \<union> state ` set (q @ ch)" using B5 unfolding sch by auto
  show ?thesis unfolding bfs_inv_def using C1 C2 C2' C3 C4 C5 by blast
qed

lemma closed_path:
  "\<forall>e\<in>E. \<forall>t. passable g t \<and> adjacent e t \<longrightarrow> t \<in> E \<Longrightarrow>
   is_path g p \<Longrightarrow> hd p \<in> E \<Longrightarrow> last p \<in> E"
proof (induction g p rule: is_path.induct)
  case (1 m)
  then show ?case by simp
next
  case (2 m s)
  then show ?case by simp
next
  case (3 m s t p)
  have pt: "passable m t" using "3.prems"(2) is_path_passable[of m "t # p" t] by simp
  have "s \<in> E" "adjacent s t" using "3.prems" by simp_all
  then have "t \<in> E" using "3.prems"(1) pt by blast
  then show ?case using 3 by simp
qed

lemma unexplored_marked:
  assumes "unexplored m"
  shows "marked Explored m = {}"
proof -
  have "cellState cell \<noteq> Explored" if h: "cell_at m s = Some cell" for s cell
  proof -
    obtain r c where s: "s = (r, c)" by (cases s)
    have b: "nat r < length m" "nat c < length (m ! nat r)" "cell = m ! nat r ! nat c"
      using h s by (simp_all add: cell_at_Some_iff)
    then have "m ! nat r \<in> set m" "cell \<in> set (m ! nat r)" by simp_all
    then show ?thesis using assms unfolding unexplored_def list_all_iff by blast
  qed
  then show ?thesis by (auto simp: marked_def)
qed

lemma unique_type:
  assumes "rectangular g" "count_type t g = 1" "type_at g s = Some t" "type_at g s' = Some t"
  shows "s = s'"
proof -
  have mem: "(nat (fst x), nat (snd x)) \<in> set (positions_of t g (all_positions g)) \<and>
       0 \<le> fst x \<and> 0 \<le> snd x" if h: "type_at g x = Some t" for x
  proof -
    obtain r c where x: "x = (r, c)" by (cases x)
    obtain cell where c: "cell_at g (r, c) = Some cell" "type cell = t"
      using h x by (auto simp: type_at_def)
    have b: "0 \<le> r" "nat r < length g" "0 \<le> c" "nat c < length (g ! nat r)"
      "cell = g ! nat r ! nat c"
      using c(1) by (simp_all add: cell_at_Some_iff)
    have "nat c < length (g ! 0)" using rectangular_row[OF assms(1) b(2)] b(4) by simp
    then have "(nat r, nat c) \<in> set (all_positions g)" using b(2) by (simp add: all_positions_def)
    then show ?thesis using b c(2) x by (simp add: positions_of_def)
  qed
  have "length (positions_of t g (all_positions g)) = 1"
    using count_positions[OF assms(1)] assms(2) by simp
  then obtain y where y: "positions_of t g (all_positions g) = [y]"
    by (metis One_nat_def length_0_conv length_Suc_conv)
  have "(nat (fst s), nat (snd s)) = y" "(nat (fst s'), nat (snd s')) = y"
    using mem[OF assms(3)] mem[OF assms(4)] y by simp_all
  then have "(nat (fst s), nat (snd s)) = (nat (fst s'), nat (snd s'))" by (rule trans[OF _ sym])
  then have "nat (fst s) = nat (fst s')" "nat (snd s) = nat (snd s')" by blast+
  then have "fst s = fst s'" "snd s = snd s'"
    using mem[OF assms(3)] mem[OF assms(4)] by linarith+
  then show ?thesis by (simp add: prod_eq_iff)
qed

lemma bfs_start:
  assumes "rectangular g" "count_type Start g = 1" "count_type Goal g = 1" "unexplored g"
  shows "\<exists>c0. bfs_state g c0 \<and> solutionType (fst c0) = Continue \<and>
     type_at g (start (fst c0)) = Some Start \<and> type_at g (goal (fst c0)) = Some Goal \<and>
     (\<forall>n. steps_on g QueueFrontierClass n = run_steps n c0)"
proof -
  obtain this cs cg where t: "Maze_constructor g = Inr this" "maze this = g" "dims_ok this"
    "cell_at g (start this) = Some cs" "type cs = Start"
    "cell_at g (goal this) = Some cg" "type cg = Goal"
    using constructor_ok[OF assms(1,2,3)] by blast
  let ?root = "Node (start this) None None (calcManhattanDistance (start this) (goal this)) 0"
  obtain c0 where c0: "solve this QueueFrontierClass = Inr c0" "run_inv c0"
    "frame (this, snd c0) c0" "solutionType (fst c0) = Continue"
    "marked Explored (maze (fst c0)) = marked Explored (maze this) - {start this}"
    "snd c0 = add (new_frontier QueueFrontierClass) ?root"
    using solve_ok[OF t(3), of cs QueueFrontierClass] t(2,4,5) by auto
  have fr: "snd c0 = QueueFrontier [?root]" using c0(6) by simp
  have ex: "marked Explored (maze (fst c0)) = {}"
    using c0(5) unexplored_marked[OF assms(4)] t(2) by simp
  have f: "start (fst c0) = start this" "goal (fst c0) = goal this" "same_types g (maze (fst c0))"
    using c0(3) t(2) by (simp_all add: frame_def)
  have "bfs_inv g (start this) {} [?root]"
    unfolding bfs_inv_def using is_path_nonempty[of g]
    by (auto simp: Suc_le_eq dest!: is_path_nonempty)
  then have "bfs_state g c0" using c0(2) f fr ex by (simp add: bfs_state_def)
  moreover have "\<forall>n. steps_on g QueueFrontierClass n = run_steps n c0"
    using t(1) c0(1) by (simp add: steps_on_def)
  ultimately show ?thesis using c0(4) f t(4-7)
    by (intro exI[of _ c0]) (simp add: type_at_def)
qed

lemma bfs_run:
  assumes "bfs_state g c" "solutionType (fst c) = Continue"
    "is_path g p" "hd p = start (fst c)" "last p = goal (fst c)"
  shows "\<exists>n c1 node fr1 c2. run_steps n c = Inr c1 \<and> solutionType (fst c1) = Continue \<and>
     remove (snd c1) = Inr (Some node, fr1) \<and> state node = goal (fst c) \<and>
     node_ok g (start (fst c)) node \<and>
     (\<forall>p'. is_path g p' \<and> hd p' = start (fst c) \<and> last p' = goal (fst c) \<longrightarrow>
        pathCost node \<le> int (length p') - 1) \<and>
     run_steps (Suc n) c = Inr c2 \<and> solutionType (fst c2) = FoundSolution \<and>
     set (path_of node) \<subseteq> marked SolutionPath (maze (fst c2))"
  using assms
proof (induction "remaining (maze (fst c))" arbitrary: c rule: less_induct)
  case less
  obtain this fr where c: "c = (this, fr)" by (cases c)
  obtain q where q: "fr = QueueFrontier q" using less.prems(1) c by (auto simp: bfs_state_def)
  let ?E = "marked Explored (maze this)"
  have ri: "run_inv (this, fr)" and stg: "same_types g (maze this)"
    and bi: "bfs_inv g (start this) ?E q" and gE: "goal this \<notin> ?E"
    using less.prems(1) c q by (simp_all add: bfs_state_def)
  have cont: "solutionType this = Continue" using less.prems(2) c by simp
  have p: "is_path g p" "hd p = start this" "last p = goal this" using less.prems(3-5) c by simp_all
  from ri show ?case
  proof (cases rule: step_cases)
    case Empty
    then have "q = []" using q by simp
    then have "\<forall>e\<in>?E. \<forall>t. passable g t \<and> adjacent e t \<longrightarrow> t \<in> ?E" "start this \<in> ?E"
      using bi by (simp_all add: bfs_inv_def)
    then have "goal this \<in> ?E" using closed_path[of ?E g p] p by simp
    then show ?thesis using gE by simp
  next
    case (Found this' fr' node)
    have "node \<in># mset (nodes_of fr)" using Found(7) by simp
    then have mem: "node \<in> set q" using q by simp
    have "node_ok (maze this) (start this) node"
      using ri mem q by (simp add: run_inv_def inv_safe_def)
    then have ok: "node_ok g (start this) node" using node_ok_same_types[OF stg] by simp
    have mn: "\<forall>p'. is_path g p' \<and> hd p' = start this \<and> last p' = goal this \<longrightarrow>
        pathCost node \<le> int (length p') - 1"
      using bi mem Found(8) unfolding bfs_inv_def by simp
    have r0: "run_steps 0 c = Inr c" by simp
    have r1: "run_steps (Suc 0) c = Inr (this', fr')" using Found(1) cont c by simp
    show ?thesis
      using r0 r1 cont Found(4,6,8,10) ok mn c
      by (intro exI[of _ 0] exI[of _ c] exI[of _ node] exI[of _ fr'] exI[of _ "(this', fr')"]) simp
  next
    case (Expand this' fr' node fr1 added)
    have qn: "q \<noteq> []" "node = hd q" "fr1 = QueueFrontier (tl q)"
      using Expand(6) q by (auto split: if_splits)
    then have qq: "q = node # tl q" by simp
    let ?ch = "map (child_of node (goal this)) added"
    have fr': "fr' = QueueFrontier (tl q @ ?ch)"
      using Expand(13) qn(3) by (simp add: add_children_queue)
    have dist: "distinct (map state q)" using ri q by (simp add: run_inv_def)
    then have nq: "state node \<notin> state ` set (tl q)" using qq
      by (metis distinct.simps(2) list.simps(9) set_map)
    have st: "state ` set ?ch =
       {t. adjacent (state node) t \<and> passable g t \<and> t \<notin> state ` set (tl q) \<and> t \<notin> ?E}"
    proof -
      have "state ` set ?ch = snd ` set added" by (simp add: image_image)
      also have "\<dots> = {t \<in> snd ` set (nbrs (maze this) (state node)).
           t \<notin> frontier_states fr1 \<and> t \<notin> ?E}"
        unfolding Expand(12) by force
      also have "\<dots> = {t. adjacent (state node) t \<and> passable g t \<and>
           t \<notin> state ` set (tl q) \<and> t \<notin> ?E}"
        unfolding nbrs_set using same_types_passable[OF stg] qn(3)
        by (auto simp: frontier_states_def)
      finally show ?thesis .
    qed
    have bi': "bfs_inv g (start this) (insert (state node) ?E) (tl q @ ?ch)"
      using bfs_inv_expand[of g "start this" ?E node "tl q" ?ch] bi qq nq st by simp
    have f: "start this' = start this" "goal this' = goal this"
      "same_types (maze this) (maze this')"
      using Expand(3) by (simp_all add: frame_def)
    have "bfs_state g (this', fr')"
      using Expand(2,8,11) bi' f fr' gE same_types_trans[OF stg f(3)]
      by (simp add: bfs_state_def)
    moreover have "remaining (maze this') < remaining (maze this)"
      using remaining_less[OF f(3) Expand(11,9,10)] .
    moreover have "solutionType this' = Continue" using Expand(4) cont by simp
    ultimately obtain n c1 node' fr2 c2 where r:
      "run_steps n (this', fr') = Inr c1" "solutionType (fst c1) = Continue"
      "remove (snd c1) = Inr (Some node', fr2)" "state node' = goal this"
      "node_ok g (start this) node'"
      "\<forall>p'. is_path g p' \<and> hd p' = start this \<and> last p' = goal this \<longrightarrow>
        pathCost node' \<le> int (length p') - 1"
      "run_steps (Suc n) (this', fr') = Inr c2" "solutionType (fst c2) = FoundSolution"
      "set (path_of node') \<subseteq> marked SolutionPath (maze (fst c2))"
      using less.hyps[of "(this', fr')"] c p f by auto
    have s1: "run_steps (Suc n) c = Inr c1" using r(1) Expand(1) cont c by simp
    have s2: "run_steps (Suc (Suc n)) c = Inr c2" using r(7) Expand(1) cont c by simp
    show ?thesis
      using s1 s2 r(2-6,8,9) c
      by (intro exI[of _ "Suc n"] exI[of _ c1] exI[of _ node'] exI[of _ fr2] exI[of _ c2]) simp
  qed
qed

lemma steps_on_terminal:
  assumes "steps_on g k i = Inr c" "solutionType (fst c) \<noteq> Continue"
  shows "steps_on g k (i + j) = Inr c"
proof -
  obtain this where t: "Maze_constructor g = Inr this"
    using assms(1) by (cases "Maze_constructor g") (simp_all add: steps_on_def)
  obtain c0 where c0: "solve this k = Inr c0"
    using assms(1) t by (cases "solve this k") (simp_all add: steps_on_def)
  have "run_steps i c0 = Inr c" using assms(1) t c0 by (simp add: steps_on_def)
  then have "run_steps (i + j) c0 = run_steps j c" by (rule run_steps_add)
  then show ?thesis using t c0 assms(2) by (simp add: steps_on_def run_steps_terminal)
qed

lemma build_row_unexplored:
  "build_row l = Inr row \<Longrightarrow> list_all (\<lambda>cell. cellState cell \<noteq> Explored) row"
proof (induction l arbitrary: row)
  case Nil
  then show ?case by simp
next
  case (Cons ch chs)
  obtain cell where c: "build_cell ch = Inr cell"
    using Cons.prems by (cases "build_cell ch") simp_all
  obtain r where r: "build_row chs = Inr r"
    using Cons.prems c by (cases "build_row chs") simp_all
  have "cellState cell \<noteq> Explored"
    using c by (auto simp: build_cell_def split: if_splits)
  then show ?case using Cons.prems Cons.IH[OF r] c r by auto
qed

lemma build_rows_unexplored: "build_rows ls = Inr m \<Longrightarrow> unexplored m"
proof (induction ls arbitrary: m)
  case Nil
  then show ?case by (simp add: unexplored_def)
next
  case (Cons l ls)
  obtain row where r: "build_row l = Inr row"
    using Cons.prems by (cases "build_row l") simp_all
  obtain rows where rs: "build_rows ls = Inr rows"
    using Cons.prems r by (cases "build_rows ls") simp_all
  have "unexplored rows" using Cons.IH[OF rs] .
  then show ?case using Cons.prems r rs build_row_unexplored[OF r]
    by (auto simp: unexplored_def)
qed

lemma buildMaze_unexplored: "buildMaze template = Inr m \<Longrightarrow> unexplored m"
  unfolding buildMaze_def by (rule build_rows_unexplored)

lemma reset_unexplored: "unexplored (mazeData (reset page))"
  by (simp add: unexplored_def reset_def reset_cell_def list_all_iff)

text \<open>C2. Let the grid be rectangular, with exactly one Start and one Goal cell and with
  a path of cells that are no walls from the Start cell to the Goal cell, and let no cell
  be marked \<open>Explored\<close>, as it is whenever a search starts: only the closure writes that
  mark, and \<open>buildMaze\<close> and \<open>reset\<close> leave none (\<open>buildMaze_unexplored\<close>,
  \<open>reset_unexplored\<close>). Then the breadth-first search raises nothing; after some number
  \<open>n\<close> of steps the outcome is still \<open>Continue\<close> and the node that the next call removes
  has the goal state; the next step ends in \<open>FoundSolution\<close>, where the search stays, and
  marks the cells of the parent chain of that node \<open>SolutionPath\<close>; this chain is a path of
  the grid from the Start cell to the Goal cell, and no path of the grid from the Start
  cell to the Goal cell has fewer states, that is fewer edges.\<close>

theorem bfs_shortest_path:
  assumes "rectangular g" "count_type Start g = 1" "count_type Goal g = 1" "unexplored g"
    and "is_path g p" "type_at g (hd p) = Some Start" "type_at g (last p) = Some Goal"
  shows "\<exists>n c node fr c'.
     steps_on g QueueFrontierClass n = Inr c \<and> solutionType (fst c) = Continue \<and>
     remove (snd c) = Inr (Some node, fr) \<and>
     steps_on g QueueFrontierClass (Suc n) = Inr c' \<and> solutionType (fst c') = FoundSolution \<and>
     (\<forall>k. steps_on g QueueFrontierClass (Suc n + k) = Inr c') \<and>
     is_path g (path_of node) \<and> type_at g (hd (path_of node)) = Some Start \<and>
     type_at g (last (path_of node)) = Some Goal \<and>
     set (path_of node) \<subseteq> marked SolutionPath (maze (fst c')) \<and>
     (\<forall>p'. is_path g p' \<and> type_at g (hd p') = Some Start \<and> type_at g (last p') = Some Goal
        \<longrightarrow> length (path_of node) \<le> length p')"
proof -
  obtain c0 where c0: "bfs_state g c0" "solutionType (fst c0) = Continue"
    "type_at g (start (fst c0)) = Some Start" "type_at g (goal (fst c0)) = Some Goal"
    "\<And>n. steps_on g QueueFrontierClass n = run_steps n c0"
    using bfs_start[OF assms(1-4)] by blast
  have ends: "hd p' = start (fst c0) \<and> last p' = goal (fst c0)"
    if "type_at g (hd p') = Some Start" "type_at g (last p') = Some Goal" for p'
    using unique_type[OF assms(1,2) that(1) c0(3)] unique_type[OF assms(1,3) that(2) c0(4)]
    by simp
  have pe: "hd p = start (fst c0)" "last p = goal (fst c0)" using ends[OF assms(6,7)] by simp_all
  obtain n c1 node fr1 c2 where r:
    "run_steps n c0 = Inr c1" "solutionType (fst c1) = Continue"
    "remove (snd c1) = Inr (Some node, fr1)" "state node = goal (fst c0)"
    "node_ok g (start (fst c0)) node"
    "\<forall>p'. is_path g p' \<and> hd p' = start (fst c0) \<and> last p' = goal (fst c0) \<longrightarrow>
        pathCost node \<le> int (length p') - 1"
    "run_steps (Suc n) c0 = Inr c2" "solutionType (fst c2) = FoundSolution"
    "set (path_of node) \<subseteq> marked SolutionPath (maze (fst c2))"
    using bfs_run[OF c0(1,2) assms(5) pe] by blast
  have ok: "is_path g (path_of node)" "hd (path_of node) = start (fst c0)"
    "pathCost node = int (length (path_of node)) - 1"
    using r(5) by (simp_all add: node_ok_def)
  have la: "last (path_of node) = goal (fst c0)" using r(4) by simp
  have mn: "length (path_of node) \<le> length p'"
    if "is_path g p' \<and> type_at g (hd p') = Some Start \<and> type_at g (last p') = Some Goal" for p'
  proof -
    have "pathCost node \<le> int (length p') - 1" using r(6) ends[of p'] that by blast
    then show ?thesis using ok(3) by linarith
  qed
  have stay: "steps_on g QueueFrontierClass (Suc n + k) = Inr c2" for k
    using steps_on_terminal[of g QueueFrontierClass "Suc n" c2 k] r(7,8) c0(5) by simp
  show ?thesis
    using r(1,2,3,7,8,9) ok(1,2) la c0(3,4,5) mn stay
    by (intro exI[of _ n] exI[of _ c1] exI[of _ node] exI[of _ fr1] exI[of _ c2]) simp
qed

lemma square_grid_path:
  "unexplored square_grid" "is_path square_grid [(0, 0), (0, 1)]"
  "type_at square_grid (hd [(0, 0), (0, 1)]) = Some Start"
  "type_at square_grid (last [(0, 0), (0, 1)]) = Some Goal"
  by (simp_all add: unexplored_def square_grid_def passable_def cell_at_def adjacent_def
      type_at_def)

theorem bfs_shortest_path_witness:
  "rectangular square_grid \<and> count_type Start square_grid = 1 \<and>
   count_type Goal square_grid = 1 \<and> unexplored square_grid \<and>
   is_path square_grid [(0, 0), (0, 1)] \<and>
   (\<exists>n c node fr c'.
     steps_on square_grid QueueFrontierClass n = Inr c \<and> solutionType (fst c) = Continue \<and>
     remove (snd c) = Inr (Some node, fr) \<and>
     steps_on square_grid QueueFrontierClass (Suc n) = Inr c' \<and>
     solutionType (fst c') = FoundSolution \<and>
     is_path square_grid (path_of node) \<and>
     set (path_of node) \<subseteq> marked SolutionPath (maze (fst c')) \<and>
     length (path_of node) \<le> length [(0, 0), (0 :: int, 1 :: int)])"
proof -
  obtain n c node fr c' where r:
     "steps_on square_grid QueueFrontierClass n = Inr c" "solutionType (fst c) = Continue"
     "remove (snd c) = Inr (Some node, fr)"
     "steps_on square_grid QueueFrontierClass (Suc n) = Inr c'"
     "solutionType (fst c') = FoundSolution"
     "is_path square_grid (path_of node)"
     "set (path_of node) \<subseteq> marked SolutionPath (maze (fst c'))"
     "\<forall>p'. is_path square_grid p' \<and> type_at square_grid (hd p') = Some Start \<and>
         type_at square_grid (last p') = Some Goal \<longrightarrow> length (path_of node) \<le> length p'"
    using bfs_shortest_path[OF square_grid_facts square_grid_path] by blast
  have "length (path_of node) \<le> length [(0, 0), (0 :: int, 1 :: int)]"
    using r(8) square_grid_path(2,3,4) by blast
  then show ?thesis using r(1-7) square_grid_facts square_grid_path(1,2) by blast
qed

end
